theory Spec2Isabelle
  imports Complex_Main "HOL-Library.Sublist" "HOL-Library.AList" "HOL-Library.Multiset"
begin

section \<open>Data model\<close>

text \<open>
  A symbol is a Python \<open>str\<close> (a single character or a two-character bigram), a bit string
  is a \<open>str\<close> over the digits 0 and 1. A Python \<open>dict\<close> (and a \<open>Counter\<close>) is modelled as an
  association list in insertion order, whose keys are distinct.
\<close>

type_synonym symbol = string

type_synonym codec = "(symbol \<times> string) list"

type_synonym 'a counter = "('a \<times> int) list"

text \<open>The exceptions the code can raise, as values.\<close>

datatype error =
    ValueError "symbol set"
  | KeyError symbol
  | IndexError
  | AttributeError
  | ZeroDivisionError
  | MathDomainError
  | RecursionError

section \<open>Workbook2: encode and decode\<close>

text \<open>\<open>''.join(codec[char] for char in text)\<close>: a missing key raises \<open>KeyError\<close>.\<close>

fun join_codes :: "codec \<Rightarrow> symbol list \<Rightarrow> error + string" where
  "join_codes codec [] = Inr []"
| "join_codes codec (char # text) =
     (case map_of codec char of
        None \<Rightarrow> Inl (KeyError char)
      | Some code \<Rightarrow>
          (case join_codes codec text of
             Inl e \<Rightarrow> Inl e
           | Inr s \<Rightarrow> Inr (code @ s)))"

definition encode :: "symbol list \<Rightarrow> codec \<Rightarrow> error + string" where
  "encode text codec =
     (let missing = set (filter (\<lambda>char. map_of codec char = None) text)
      in if missing \<noteq> {} then Inl (ValueError missing)
         else join_codes codec text)"

text \<open>
  \<open>{code: char for char, code in codec.items()}\<close>: a later item overrides an earlier one
  with the same code.
\<close>

definition reversed_codec :: "codec \<Rightarrow> string \<Rightarrow> symbol option" where
  "reversed_codec codec = map_of (rev (map (\<lambda>(char, code). (code, char)) codec))"

text \<open>The loop of \<open>decode\<close>, on the state \<open>(result, buffer)\<close>.\<close>

fun decode_loop ::
  "(string \<Rightarrow> symbol option) \<Rightarrow> string \<Rightarrow> symbol list \<times> string \<Rightarrow> symbol list \<times> string"
where
  "decode_loop rc [] (result, buffer) = (result, buffer)"
| "decode_loop rc (char # bitstring) (result, buffer) =
     (let buffer' = buffer @ [char]
      in case rc buffer' of
           Some s \<Rightarrow> decode_loop rc bitstring (result @ [s], [])
         | None \<Rightarrow> decode_loop rc bitstring (result, buffer'))"

text \<open>\<open>decode\<close> returns \<open>''.join(result)\<close>; the buffer left at the end is dropped.\<close>

definition decode_symbols :: "string \<Rightarrow> codec \<Rightarrow> symbol list" where
  "decode_symbols bitstring codec =
     fst (decode_loop (reversed_codec codec) bitstring ([], []))"

definition decode :: "string \<Rightarrow> codec \<Rightarrow> string" where
  "decode bitstring codec = concat (decode_symbols bitstring codec)"

text \<open>
  The Codec of the data model: a dict (distinct keys) that is injective, whose code words
  are non-empty and of which none is a proper prefix of another.
\<close>

definition prefix_free :: "codec \<Rightarrow> bool" where
  "prefix_free codec =
     (\<forall>c \<in> set (map snd codec). \<forall>d \<in> set (map snd codec). \<not> strict_prefix c d)"

definition nonempty_codes :: "codec \<Rightarrow> bool" where
  "nonempty_codes codec = (\<forall>c \<in> set (map snd codec). c \<noteq> [])"

definition is_codec :: "codec \<Rightarrow> bool" where
  "is_codec codec \<longleftrightarrow>
     distinct (map fst codec) \<and> distinct (map snd codec) \<and>
     nonempty_codes codec \<and> prefix_free codec"

definition covered :: "symbol list \<Rightarrow> codec \<Rightarrow> bool" where
  "covered text codec = (\<forall>char \<in> set text. map_of codec char \<noteq> None)"

text \<open>The code word of a symbol that has one.\<close>

definition code_of :: "codec \<Rightarrow> symbol \<Rightarrow> string" where
  "code_of codec char = (case map_of codec char of Some code \<Rightarrow> code | None \<Rightarrow> [])"

section \<open>Workbook1: removal by frequency\<close>

text \<open>
  \<open>Counter(iterable)\<close> counts the elements one by one: a new element is appended with
  count 1, a known one has its count incremented in place. The keys are therefore in
  order of first occurrence.
\<close>

definition counter_incr :: "'a \<Rightarrow> 'a counter \<Rightarrow> 'a counter" where
  "counter_incr elem c =
     (case map_of c elem of
        None \<Rightarrow> c @ [(elem, 1)]
      | Some n \<Rightarrow> AList.update elem (n + 1) c)"

definition Counter :: "'a list \<Rightarrow> 'a counter" where
  "Counter iterable = fold counter_incr iterable []"

text \<open>
  \<open>most_common()\<close> is \<open>sorted(self.items(), key=itemgetter(1), reverse=True)\<close>: a stable
  sort by descending count.
\<close>

definition most_common :: "'a counter \<Rightarrow> ('a \<times> int) list" where
  "most_common c = sort_key (\<lambda>item. - snd item) c"

text \<open>Python's \<open>round\<close> of a float to an integer rounds a half to the even neighbour.\<close>

definition py_round :: "real \<Rightarrow> int" where
  "py_round x =
     (let f = \<lfloor>x\<rfloor>; d = x - of_int f
      in if d < 1 / 2 then f
         else if d > 1 / 2 then f + 1
         else if even f then f else f + 1)"

text \<open>
  A float is a binary64 number, modelled by its exact value. A float operation returns the
  exact result rounded to the nearest float, a tie to the float of even mantissa: for a
  number of binary exponent \<open>e\<close> the floats are the multiples of \<open>2 ^ (e - 52)\<close>. Overflow
  and subnormal numbers (beyond about 1e308 and below about 1e-308) are not modelled.
\<close>

definition double_exponent :: "real \<Rightarrow> int" where
  "double_exponent x = \<lfloor>log 2 \<bar>x\<bar>\<rfloor>"

definition round_to_double :: "real \<Rightarrow> real" where
  "round_to_double x =
     (if x = 0 then 0
      else
        let ulp = 2 powr real_of_int (double_exponent x - 52)
        in real_of_int (py_round (x / ulp)) * ulp)"

text \<open>The slices \<open>xs[:n]\<close> and \<open>xs[n:]\<close>; a negative index counts from the end.\<close>

definition slice_to :: "'a list \<Rightarrow> int \<Rightarrow> 'a list" where
  "slice_to xs n =
     (if n < 0 then take (length xs - nat (- n)) xs else take (nat n) xs)"

definition slice_from :: "'a list \<Rightarrow> int \<Rightarrow> 'a list" where
  "slice_from xs n =
     (if n < 0 then drop (length xs - nat (- n)) xs else drop (nat n) xs)"

text \<open>
  \<open>remove_n = max(1, round(frac * symbols_count))\<close>: the product is a float product, of the
  float \<open>frac\<close> and the number of symbols converted to a float (exactly, the number being
  far below \<open>2 ^ 53\<close>).
\<close>

definition remove_n :: "int \<Rightarrow> real \<Rightarrow> int" where
  "remove_n symbols_count fraction =
     max 1 (py_round (round_to_double (fraction * of_int symbols_count)))"

text \<open>
  The text is a \<open>str\<close>, its symbols are characters; the mode is a \<open>str\<close>, and every mode
  other than \<open>top\<close> takes the branch of \<open>bottom\<close>.
\<close>

definition remove_by_frequency :: "string \<Rightarrow> string \<Rightarrow> real \<Rightarrow> string \<times> char set" where
  "remove_by_frequency text mode fraction =
     (let counter = Counter text
      in if counter = [] then (text, {})
         else
           let symbols_count = int (length counter);
               n = remove_n symbols_count fraction;
               to_remove =
                 (if mode = ''top''
                  then set (map fst (slice_to (most_common counter) n))
                  else set (map fst (slice_from (most_common counter) (- n))));
               filtered = filter (\<lambda>char. char \<notin> to_remove) text
           in (filtered, to_remove))"

text \<open>The symbols of a text in the order \<open>most_common\<close> ranks them.\<close>

definition ranking :: "'a list \<Rightarrow> 'a list" where
  "ranking text = map fst (most_common (Counter text))"

section \<open>Entropy and average code length\<close>

text \<open>
  Python floats are modelled as real numbers: the arithmetic is exact. The errors of the
  float operations are kept: \<open>1 / x\<close> raises \<open>ZeroDivisionError\<close> at zero, and \<open>log2\<close>
  raises a \<open>ValueError\<close> (math domain error) outside the positive numbers.
\<close>

definition entropy_term :: "int \<Rightarrow> int \<Rightarrow> error + real" where
  "entropy_term c n =
     (let p = real_of_int c / real_of_int n
      in if p = 0 then Inl ZeroDivisionError
         else if 1 / p \<le> 0 then Inl MathDomainError
         else Inr (p * log 2 (1 / p)))"

text \<open>\<open>sum(... for c in counter.values())\<close>, stopping at the first term that raises.\<close>

fun entropy_sum :: "int list \<Rightarrow> int \<Rightarrow> real \<Rightarrow> error + real" where
  "entropy_sum [] n acc = Inr acc"
| "entropy_sum (c # cs) n acc =
     (case entropy_term c n of
        Inl e \<Rightarrow> Inl e
      | Inr t \<Rightarrow> entropy_sum cs n (acc + t))"

definition calculate_entropy :: "'a counter \<Rightarrow> error + real" where
  "calculate_entropy counter =
     (let n = sum_list (map snd counter)
      in if n = 0 then Inr 0
         else entropy_sum (map snd counter) n 0)"






section \<open>Workbook3: Huffman coding\<close>

text \<open>
  The class \<open>Node\<close>: a symbol or \<open>None\<close>, a frequency, and two children that are nodes
  or \<open>None\<close>. The constructor sets both children to \<open>None\<close>.
\<close>

datatype node = Node (char: "symbol option") (freq: int) (left: "node option") (right: "node option")

text \<open>
  The loop of \<open>build_huffman_codes\<close>: while more than one node remains, sort the nodes by
  frequency (the sort is stable), pop the first two, and append a node that has them as
  left and right child. The second branch of the case is not reachable: a list of more
  than one node has two nodes to pop.
\<close>

function huffman_merge :: "node list \<Rightarrow> node list" where
  "huffman_merge nodes =
     (if length nodes > 1
      then (case sort_key freq nodes of
              lnode # rnode # rest \<Rightarrow>
                huffman_merge (rest @ [Node None (freq lnode + freq rnode) (Some lnode) (Some rnode)])
            | _ \<Rightarrow> nodes)
      else nodes)"
  by pat_completeness auto
termination
proof (relation "measure length")
  show "wf (measure length)"
    by simp
next
  fix nodes :: "node list" and lnode x22 rnode rest
  assume "sort_key freq nodes = lnode # x22" and "x22 = rnode # rest"
  then have "length (sort_key freq nodes) = length rest + 2"
    by simp
  then show "(rest @ [Node None (freq lnode + freq rnode) (Some lnode) (Some rnode)], nodes)
      \<in> measure length"
    by simp
qed

declare huffman_merge.simps [simp del]

text \<open>
  \<open>generate_codes\<close>: a node with a symbol stores the code so far (or 0 when it is empty)
  under the symbol; then the right child is visited with a 0 appended and the left child
  with a 1 appended. A child that is \<open>None\<close> is skipped.
\<close>

fun generate_codes :: "node \<Rightarrow> string \<Rightarrow> codec \<Rightarrow> codec" where
  "generate_codes (Node c f l r) code huffman_codes =
     (let codes1 = (case c of
                      Some ch \<Rightarrow> AList.update ch (if code = [] then ''0'' else code) huffman_codes
                    | None \<Rightarrow> huffman_codes);
          codes2 = (case r of
                      Some rnode \<Rightarrow> generate_codes rnode (code @ ''0'') codes1
                    | None \<Rightarrow> codes1)
      in case l of
           Some lnode \<Rightarrow> generate_codes lnode (code @ ''1'') codes2
         | None \<Rightarrow> codes2)"

text \<open>
  \<open>build_huffman_codes\<close> returns the codec, the encoded elements and the root; \<open>nodes[0]\<close>
  raises \<open>IndexError\<close> on the empty list, and the join raises \<open>KeyError\<close> at an element that
  has no code.
\<close>

definition build_huffman_codes ::
  "symbol list \<Rightarrow> symbol counter \<Rightarrow> error + (codec \<times> string \<times> node)"
where
  "build_huffman_codes chars counter =
     (let nodes = huffman_merge (map (\<lambda>(ch, fr). Node (Some ch) fr None None) counter)
      in case nodes of
           [] \<Rightarrow> Inl IndexError
         | tree # _ \<Rightarrow>
             (let huffman_codes = generate_codes tree [] []
              in case join_codes huffman_codes chars of
                   Inl e \<Rightarrow> Inl e
                 | Inr encoded \<Rightarrow> Inr (huffman_codes, encoded, tree)))"

text \<open>
  The loop of \<open>decode_text\<close>, on the current node and the symbols decoded so far. Bit 1
  moves to the left child, every other character to the right child; reading a child of
  \<open>None\<close> raises \<open>AttributeError\<close>. A node counts as reached symbol when it is not \<open>None\<close>
  and its symbol is neither \<open>None\<close> nor the empty string.
\<close>

fun decode_walk :: "node \<Rightarrow> node option \<Rightarrow> string \<Rightarrow> symbol list \<Rightarrow> error + symbol list" where
  "decode_walk tree current_node [] decoded_text = Inr decoded_text"
| "decode_walk tree current_node (b # encoded_text) decoded_text =
     (case current_node of
        None \<Rightarrow> Inl AttributeError
      | Some n \<Rightarrow>
          (let next_node = (if b = CHR ''1'' then left n else right n)
           in case next_node of
                None \<Rightarrow> decode_walk tree None encoded_text decoded_text
              | Some m \<Rightarrow>
                  (case char m of
                     None \<Rightarrow> decode_walk tree next_node encoded_text decoded_text
                   | Some ch \<Rightarrow>
                       if ch \<noteq> []
                       then decode_walk tree (Some tree) encoded_text (decoded_text @ [ch])
                       else decode_walk tree next_node encoded_text decoded_text)))"

definition decode_text :: "string \<Rightarrow> node \<Rightarrow> error + symbol list" where
  "decode_text encoded_text tree = decode_walk tree (Some tree) encoded_text []"

text \<open>
  The shape of the trees the loop builds: a leaf has a symbol and no child, an inner node
  has no symbol and both children.
\<close>

fun well_formed :: "node \<Rightarrow> bool" where
  "well_formed (Node c f l r) =
     (case c of
        Some ch \<Rightarrow> l = None \<and> r = None
      | None \<Rightarrow>
          (case l of
             None \<Rightarrow> False
           | Some lnode \<Rightarrow>
               (case r of None \<Rightarrow> False | Some rnode \<Rightarrow> well_formed lnode \<and> well_formed rnode)))"

text \<open>
  The symbols of a tree with the paths that lead to them, in the order \<open>generate_codes\<close>
  visits them: 0 for a step to the right child, 1 for a step to the left child.
\<close>

fun tree_paths :: "node \<Rightarrow> (symbol \<times> string) list" where
  "tree_paths (Node c f l r) =
     (case c of Some ch \<Rightarrow> [(ch, [])] | None \<Rightarrow> []) @
     (case r of Some rnode \<Rightarrow> map (\<lambda>(s, p). (s, CHR ''0'' # p)) (tree_paths rnode) | None \<Rightarrow> []) @
     (case l of Some lnode \<Rightarrow> map (\<lambda>(s, p). (s, CHR ''1'' # p)) (tree_paths lnode) | None \<Rightarrow> [])"

section \<open>Workbook2: Shannon-Fano coding\<close>

text \<open>
  The loop of \<open>split\<close> that looks for the cut: it adds the frequencies from left to right
  and stops behind the first item at which the sum reaches half of the total (\<open>total / 2\<close>
  is a float division, exact for a total below \<open>2 ^ 53\<close>, and the comparison of the integer
  sum with it is exact). When no item reaches it, \<open>cut_idx\<close> keeps its initial value 0.
\<close>

fun find_cut :: "(symbol \<times> int) list \<Rightarrow> int \<Rightarrow> int \<Rightarrow> nat \<Rightarrow> nat" where
  "find_cut [] total_freq acc i = 0"
| "find_cut ((_, frequency) # grp) total_freq acc i =
     (let acc' = acc + frequency
      in if real_of_int acc' \<ge> real_of_int total_freq / 2 then i + 1
         else find_cut grp total_freq acc' (i + 1))"

text \<open>
  \<open>for char, _ in items: codes[char] += b\<close>, on the dict \<open>codes\<close>; reading a missing key
  raises \<open>KeyError\<close>.
\<close>

fun append_bits :: "(symbol \<times> int) list \<Rightarrow> string \<Rightarrow> codec \<Rightarrow> error + codec" where
  "append_bits [] b codes = Inr codes"
| "append_bits ((ch, _) # items) b codes =
     (case map_of codes ch of
        None \<Rightarrow> Inl (KeyError ch)
      | Some code \<Rightarrow> append_bits items b (AList.update ch (code @ b) codes))"

text \<open>
  The nested function \<open>split\<close>, with the dict \<open>codes\<close> it updates passed through. A cut at 0
  or at the length of the group leaves one side equal to the group: the recursion on that
  side never ends, and Python raises \<open>RecursionError\<close>. Otherwise both sides are shorter
  than the group; the recursion limit of the interpreter is not modelled for them.
\<close>

function split :: "(symbol \<times> int) list \<Rightarrow> codec \<Rightarrow> error + codec" where
  "split grp codes =
     (if length grp \<le> 1 then Inr codes
      else
        let total_freq = sum_list (map snd grp);
            cut_idx = find_cut grp total_freq 0 0;
            lgroup = take cut_idx grp;
            rgroup = drop cut_idx grp
        in case append_bits lgroup ''0'' codes of
             Inl e \<Rightarrow> Inl e
           | Inr codes1 \<Rightarrow>
               (case append_bits rgroup ''1'' codes1 of
                  Inl e \<Rightarrow> Inl e
                | Inr codes2 \<Rightarrow>
                    if cut_idx = 0 \<or> length grp \<le> cut_idx then Inl RecursionError
                    else
                      (case split rgroup codes2 of
                         Inl e \<Rightarrow> Inl e
                       | Inr codes3 \<Rightarrow> split lgroup codes3)))"
  by pat_completeness auto
termination
  by (relation "measure (\<lambda>(grp, codes). length grp)") auto

declare split.simps [simp del]

text \<open>
  \<open>calculate_shannon_fano\<close>: every symbol starts with the empty code; the items are sorted
  by descending frequency (a stable sort) and split.
\<close>

definition calculate_shannon_fano :: "symbol counter \<Rightarrow> error + codec" where
  "calculate_shannon_fano counter =
     split (sort_key (\<lambda>x. - snd x) counter) (map (\<lambda>(ch, _). (ch, [])) counter)"

section \<open>Properties of encode and decode\<close>

lemma join_codes_covered:
  "covered seq codec \<Longrightarrow> join_codes codec seq = Inr (concat (map (code_of codec) seq))"
  by (induction seq) (auto simp: covered_def code_of_def)

lemma join_codes_Inl:
  "join_codes codec seq = Inl e \<Longrightarrow> \<exists>char \<in> set seq. map_of codec char = None"
  by (induction seq) (auto split: option.splits sum.splits)

lemma encode_covered:
  "covered seq codec \<Longrightarrow> encode seq codec = Inr (concat (map (code_of codec) seq))"
  by (simp add: encode_def join_codes_covered) (auto simp: covered_def)

lemma reversed_codec_Some:
  assumes "distinct (map snd codec)" and "(s, w) \<in> set codec"
  shows "reversed_codec codec w = Some s"
proof -
  let ?sw = "rev (map (\<lambda>(char, code). (code, char)) codec)"
  have "map fst ?sw = rev (map snd codec)"
    by (simp add: rev_map case_prod_beta comp_def)
  then have "distinct (map fst ?sw)"
    using assms(1) by simp
  moreover have "(w, s) \<in> set ?sw"
    using assms(2) by force
  ultimately show ?thesis
    unfolding reversed_codec_def by (rule map_of_is_SomeI)
qed

lemma reversed_codec_None:
  "w \<notin> set (map snd codec) \<Longrightarrow> reversed_codec codec w = None"
  unfolding reversed_codec_def by (force simp: map_of_eq_None_iff)

text \<open>Reading bits that never complete a code word only fills the buffer.\<close>

lemma decode_loop_fill:
  "(\<And>k. k < length u \<Longrightarrow> rc (buffer @ take (Suc k) u) = None) \<Longrightarrow>
   decode_loop rc (u @ rest) (result, buffer) = decode_loop rc rest (result, buffer @ u)"
proof (induction u arbitrary: buffer)
  case Nil
  then show ?case by simp
next
  case (Cons b u)
  have "rc (buffer @ [b]) = None"
    using Cons.prems [of 0] by simp
  moreover have "decode_loop rc (u @ rest) (result, buffer @ [b]) =
                 decode_loop rc rest (result, (buffer @ [b]) @ u)"
  proof (rule Cons.IH)
    fix k assume "k < length u"
    then show "rc ((buffer @ [b]) @ take (Suc k) u) = None"
      using Cons.prems [of "Suc k"] by simp
  qed
  ultimately show ?case by simp
qed

text \<open>Reading one complete code word from an empty buffer emits its symbol.\<close>

lemma decode_loop_codeword:
  assumes "is_codec codec" and "(s, w) \<in> set codec"
  shows "decode_loop (reversed_codec codec) (w @ rest) (result, []) =
         decode_loop (reversed_codec codec) rest (result @ [s], [])"
proof -
  have "w \<noteq> []"
    using assms by (force simp: is_codec_def nonempty_codes_def)
  then obtain u b where wub: "w = u @ [b]"
    by (meson rev_exhaust)
  have win: "w \<in> set (map snd codec)"
    using assms(2) by force
  have none: "reversed_codec codec ([] @ take (Suc k) u) = None" if "k < length u" for k
  proof (rule reversed_codec_None, rule notI)
    assume "[] @ take (Suc k) u \<in> set (map snd codec)"
    then have in1: "take (Suc k) u \<in> set (map snd codec)" by simp
    have "prefix (take (Suc k) u) u"
      by (rule take_is_prefix)
    moreover have "strict_prefix u w"
      using wub by (simp add: strict_prefix_def)
    ultimately have "strict_prefix (take (Suc k) u) w"
      by (rule prefix_order.le_less_trans)
    then show False
      using assms(1) in1 win unfolding is_codec_def prefix_free_def by blast
  qed
  have "decode_loop (reversed_codec codec) (u @ (b # rest)) (result, []) =
        decode_loop (reversed_codec codec) (b # rest) (result, [] @ u)"
    using none by (rule decode_loop_fill)
  moreover have "reversed_codec codec (u @ [b]) = Some s"
    using assms wub by (simp add: reversed_codec_Some is_codec_def)
  ultimately show ?thesis
    using wub by simp
qed

text \<open>Reading the code words of a covered sequence emits the sequence.\<close>

lemma decode_loop_encoded:
  assumes "is_codec codec" and "covered seq codec"
  shows "decode_loop (reversed_codec codec) (concat (map (code_of codec) seq) @ rest) (result, []) =
         decode_loop (reversed_codec codec) rest (result @ seq, [])"
  using assms(2)
proof (induction seq arbitrary: result)
  case Nil
  then show ?case by simp
next
  case (Cons s seq)
  from Cons.prems obtain w where w: "map_of codec s = Some w"
    by (auto simp: covered_def)
  then have sw: "(s, w) \<in> set codec"
    by (rule map_of_SomeD)
  have cov: "covered seq codec"
    using Cons.prems by (simp add: covered_def)
  have "decode_loop (reversed_codec codec) (w @ (concat (map (code_of codec) seq) @ rest)) (result, []) =
        decode_loop (reversed_codec codec) (concat (map (code_of codec) seq) @ rest) (result @ [s], [])"
    using assms(1) sw by (rule decode_loop_codeword)
  also have "\<dots> = decode_loop (reversed_codec codec) rest ((result @ [s]) @ seq, [])"
    using cov by (rule Cons.IH)
  finally show ?case
    using w by (simp add: code_of_def [of codec s])
qed

lemma decode_loop_encoded_tail:
  assumes "is_codec codec" and "covered seq codec"
    and "\<And>k. k < length tail \<Longrightarrow> take (Suc k) tail \<notin> set (map snd codec)"
  shows "decode_loop (reversed_codec codec) (concat (map (code_of codec) seq) @ tail) ([], []) =
         (seq, tail)"
proof -
  have "decode_loop (reversed_codec codec) (tail @ []) (seq, []) =
        decode_loop (reversed_codec codec) [] (seq, [] @ tail)"
  proof (rule decode_loop_fill)
    fix k assume "k < length tail"
    then have "take (Suc k) tail \<notin> set (map snd codec)"
      by (rule assms(3))
    then show "reversed_codec codec ([] @ take (Suc k) tail) = None"
      by (simp add: reversed_codec_None)
  qed
  then show ?thesis
    using decode_loop_encoded [OF assms(1,2), of tail "[]"] by simp
qed

text \<open>
  C1. Round trip: for a codec (injective, non-empty code words, prefix-free) and a sequence
  of symbols that all have a code word, \<open>encode\<close> succeeds, the symbols \<open>decode\<close> collects
  from the encoded bits are exactly the sequence, and the string it returns is their join
  (for one-character symbols, the original text).
\<close>

theorem decode_encode_roundtrip:
  assumes "is_codec codec" and "covered seq codec"
  shows "\<exists>bits. encode seq codec = Inr bits \<and> decode_symbols bits codec = seq \<and>
           decode bits codec = concat seq"
proof -
  have "decode_loop (reversed_codec codec) (concat (map (code_of codec) seq) @ []) ([], []) =
        (seq, [])"
    using assms by (rule decode_loop_encoded_tail) simp
  then show ?thesis
    using assms(2) by (simp add: encode_covered decode_def decode_symbols_def)
qed

theorem decode_encode_roundtrip_witness:
  "is_codec [(''a'', ''0''), (''b'', ''10''), (''c'', ''11'')] \<and>
   covered [''a'', ''b'', ''a'', ''c''] [(''a'', ''0''), (''b'', ''10''), (''c'', ''11'')] \<and>
   (\<exists>bits. encode [''a'', ''b'', ''a'', ''c''] [(''a'', ''0''), (''b'', ''10''), (''c'', ''11'')] = Inr bits \<and>
      decode_symbols bits [(''a'', ''0''), (''b'', ''10''), (''c'', ''11'')] = [''a'', ''b'', ''a'', ''c''] \<and>
      decode bits [(''a'', ''0''), (''b'', ''10''), (''c'', ''11'')] = concat [''a'', ''b'', ''a'', ''c''])"
proof -
  have h1: "is_codec [(''a'', ''0''), (''b'', ''10''), (''c'', ''11'')]"
    by (simp add: is_codec_def nonempty_codes_def prefix_free_def)
  have h2: "covered [''a'', ''b'', ''a'', ''c''] [(''a'', ''0''), (''b'', ''10''), (''c'', ''11'')]"
    by (simp add: covered_def)
  show ?thesis
    using h1 h2 decode_encode_roundtrip [OF h1 h2] by simp
qed

text \<open>
  C8. \<open>encode\<close> raises \<open>ValueError\<close>, carrying the set of the input symbols that have no code
  word, exactly when some input symbol has none; otherwise it returns the code words of
  the symbols joined in input order (the lookups of the join never raise \<open>KeyError\<close>).
\<close>

theorem encode_missing_or_joined:
  "encode seq codec =
     (if \<exists>char \<in> set seq. map_of codec char = None
      then Inl (ValueError {char \<in> set seq. map_of codec char = None})
      else Inr (concat (map (code_of codec) seq)))"
proof (cases "covered seq codec")
  case True
  then show ?thesis
    by (simp add: encode_covered) (simp add: covered_def)
next
  case False
  then have "set (filter (\<lambda>char. map_of codec char = None) seq) \<noteq> {}"
    by (auto simp: covered_def filter_empty_conv)
  then show ?thesis
    using False by (auto simp: encode_def covered_def)
qed

theorem encode_missing_or_joined_witness:
  "encode [''a'', ''x'', ''b'', ''y'', ''x''] [(''a'', ''0''), (''b'', ''10''), (''c'', ''11'')] =
     Inl (ValueError {''x'', ''y''}) \<and>
   encode [''c'', ''a'', ''b''] [(''a'', ''0''), (''b'', ''10''), (''c'', ''11'')] = Inr ''11010''"
proof -
  have "{char \<in> set [''a'', ''x'', ''b'', ''y'', ''x''].
           map_of [(''a'', ''0''), (''b'', ''10''), (''c'', ''11'')] char = None} = {''x'', ''y''}"
    by auto
  then show ?thesis
    using encode_missing_or_joined [of "[''a'', ''x'', ''b'', ''y'', ''x'']"
        "[(''a'', ''0''), (''b'', ''10''), (''c'', ''11'')]"]
      encode_missing_or_joined [of "[''c'', ''a'', ''b'']"
        "[(''a'', ''0''), (''b'', ''10''), (''c'', ''11'')]"]
    by (simp add: code_of_def)
qed

text \<open>
  C3, as the code behaves. \<open>decode\<close> has no failing path. When the input is the code words of
  a sequence followed by bits of which no non-empty prefix is a code word, the loop ends
  with those bits in the buffer, and \<open>decode\<close> returns the join of the symbols decoded
  before them: the unmatched buffer is dropped.
\<close>

theorem decode_drops_unmatched_buffer:
  assumes "is_codec codec" and "covered seq codec" and "tail \<noteq> []"
    and "\<forall>k < length tail. take (Suc k) tail \<notin> set (map snd codec)"
  shows "decode_loop (reversed_codec codec) (concat (map (code_of codec) seq) @ tail) ([], []) =
           (seq, tail) \<and>
         decode (concat (map (code_of codec) seq) @ tail) codec = concat seq"
proof -
  have "decode_loop (reversed_codec codec) (concat (map (code_of codec) seq) @ tail) ([], []) =
        (seq, tail)"
    using assms(1,2) by (rule decode_loop_encoded_tail) (use assms(4) in blast)
  then show ?thesis
    by (simp add: decode_def decode_symbols_def)
qed

theorem decode_drops_unmatched_buffer_witness:
  "is_codec [(''a'', ''0''), (''b'', ''10''), (''c'', ''11'')] \<and>
   covered [''b'', ''a''] [(''a'', ''0''), (''b'', ''10''), (''c'', ''11'')] \<and>
   decode_loop (reversed_codec [(''a'', ''0''), (''b'', ''10''), (''c'', ''11'')]) ''1001'' ([], []) =
     ([''b'', ''a''], ''1'') \<and>
   decode ''1001'' [(''a'', ''0''), (''b'', ''10''), (''c'', ''11'')] = ''ba''"
proof -
  have h1: "is_codec [(''a'', ''0''), (''b'', ''10''), (''c'', ''11'')]"
    by (simp add: is_codec_def nonempty_codes_def prefix_free_def)
  have h2: "covered [''b'', ''a''] [(''a'', ''0''), (''b'', ''10''), (''c'', ''11'')]"
    by (simp add: covered_def)
  have h3: "''1'' \<noteq> []"
    by simp
  have h4: "\<forall>k < length ''1''. take (Suc k) ''1'' \<notin>
              set (map snd [(''a'', ''0''), (''b'', ''10''), (''c'', ''11'')])"
    by simp
  show ?thesis
    using h1 h2 decode_drops_unmatched_buffer [OF h1 h2 h3 h4] by (simp add: code_of_def)
qed

text \<open>
  C3 as stated fails: on the single bit 1, which is no code word of the codec, the loop
  ends with the non-empty buffer 1, which matches no code word, and \<open>decode\<close> returns the
  empty string.
\<close>

theorem decode_corrupt_stream_counterexample:
  "decode_loop (reversed_codec [(''a'', ''0''), (''b'', ''10''), (''c'', ''11'')]) ''1'' ([], []) =
     ([], ''1'') \<and>
   reversed_codec [(''a'', ''0''), (''b'', ''10''), (''c'', ''11'')] ''1'' = None \<and>
   decode ''1'' [(''a'', ''0''), (''b'', ''10''), (''c'', ''11'')] = []"
  by (simp add: decode_def decode_symbols_def reversed_codec_def)

section \<open>Properties of removal by frequency\<close>

lemma double_exponent_eqI:
  assumes "2 powr real_of_int e \<le> \<bar>x\<bar>" and "\<bar>x\<bar> < 2 powr real_of_int (e + 1)"
  shows "double_exponent x = e"
proof -
  have "0 < (2::real) powr real_of_int e"
    by simp
  with assms(1) have "0 < \<bar>x\<bar>"
    by linarith
  then show ?thesis
    unfolding double_exponent_def using assms
    by (subst floor_log_eq_powr_iff) simp_all
qed

lemma double_exponent_nat:
  assumes "2 ^ k \<le> \<bar>x\<bar>" and "\<bar>x\<bar> < 2 ^ Suc k"
  shows "double_exponent x = int k"
proof (rule double_exponent_eqI)
  show "2 powr real_of_int (int k) \<le> \<bar>x\<bar>"
    using assms(1) by (simp add: powr_realpow)
  have "(2::real) powr real_of_int (int k + 1) = 2 ^ Suc k"
    by (metis of_int_of_nat_eq of_nat_Suc powr_realpow zero_less_numeral add.commute
        of_int_add of_int_1 of_nat_1 of_nat_add Suc_eq_plus1)
  with assms(2) show "\<bar>x\<bar> < 2 powr real_of_int (int k + 1)"
    by simp
qed

text \<open>
  Two float products. The float 0.3 is 5404319552844595 / 2 ^ 54: its exact product with 5
  is just below 1.5 and rounds to the float 1.5, which \<open>round\<close> takes to 2. The float 0.575
  is 2589569785738035 / 2 ^ 52: its product with 100 rounds to a float below 57.5, which
  \<open>round\<close> takes to 57.
\<close>

lemma round_to_double_three_tenths:
  "round_to_double (5404319552844595 / 18014398509481984 * 5) = 3 / 2"
proof -
  have "double_exponent (5404319552844595 / 18014398509481984 * 5) = int 0"
    by (rule double_exponent_nat) simp_all
  then show ?thesis
    by (simp add: round_to_double_def powr_minus py_round_def)
qed


lemma round_to_double_575:
  "round_to_double (2589569785738035 / 4503599627370496 * 100) =
     8092405580431359 / 140737488355328"
proof -
  have "double_exponent (2589569785738035 / 4503599627370496 * 100) = int 5"
    by (rule double_exponent_nat) simp_all
  then show ?thesis
    by (simp add: round_to_double_def powr_minus py_round_def)
qed

lemma remove_n_three_tenths: "remove_n 5 (5404319552844595 / 18014398509481984) = 2"
proof -
  have "remove_n 5 (5404319552844595 / 18014398509481984) =
      max 1 (py_round (round_to_double (5404319552844595 / 18014398509481984 * 5)))"
    by (simp only: remove_n_def of_int_numeral)
  also have "\<dots> = max 1 (py_round (3 / 2))"
    by (simp only: round_to_double_three_tenths)
  also have "\<dots> = 2"
    by (simp add: py_round_def)
  finally show ?thesis .
qed

lemma remove_n_575: "remove_n 100 (2589569785738035 / 4503599627370496) = 57"
proof -
  have "remove_n 100 (2589569785738035 / 4503599627370496) =
      max 1 (py_round (round_to_double (2589569785738035 / 4503599627370496 * 100)))"
    by (simp only: remove_n_def of_int_numeral)
  also have "\<dots> = max 1 (py_round (8092405580431359 / 140737488355328))"
    by (simp only: round_to_double_575)
  also have "\<dots> = 57"
    by (simp add: py_round_def)
  finally show ?thesis .
qed

text \<open>Rounding to an integer, and rounding to a float, do not pass an integer above.\<close>

lemma py_round_le:
  assumes "y \<le> real_of_int K"
  shows "py_round y \<le> K"
proof (cases "y = real_of_int K")
  case True
  then show ?thesis
    by (simp add: py_round_def)
next
  case False
  with assms have "y < real_of_int K"
    by simp
  then have "\<lfloor>y\<rfloor> < K"
    by (simp add: floor_less_iff)
  then have "\<lfloor>y\<rfloor> + 1 \<le> K"
    by simp
  then show ?thesis
    by (auto simp: py_round_def Let_def)
qed

lemma round_to_double_le_int:
  assumes "0 < n" and "n < 2 ^ 53" and "x \<le> real_of_int n"
  shows "round_to_double x \<le> real_of_int n"
proof (cases "x \<le> 0")
  case True
  show ?thesis
  proof (cases "x = 0")
    case True
    with assms(1) show ?thesis
      by (simp add: round_to_double_def)
  next
    case False
    let ?ulp = "2 powr real_of_int (double_exponent x - 52)"
    have u: "0 < ?ulp"
      by simp
    have "x / ?ulp \<le> real_of_int 0"
      using True u by (simp add: divide_le_0_iff)
    then have "py_round (x / ?ulp) \<le> 0"
      by (rule py_round_le)
    then have "real_of_int (py_round (x / ?ulp)) * ?ulp \<le> 0"
      using u by (simp add: mult_le_0_iff)
    then show ?thesis
      using False assms(1) by (simp add: round_to_double_def Let_def)
  qed
next
  case False
  then have x: "0 < x"
    by simp
  let ?e = "double_exponent x"
  let ?ulp = "2 powr real_of_int (?e - 52)"
  have "real_of_int n < 2 ^ 53"
    using assms(2) by (metis of_int_less_iff of_int_numeral of_int_power)
  with assms(3) have "x < 2 ^ 53"
    by linarith
  then have p: "x < 2 powr real (53::nat)"
    by (simp only: powr_realpow [of 2, OF zero_less_numeral])
  have "(1::real) < 2"
    by simp
  then have "log 2 x < real (53::nat) \<longleftrightarrow> x < 2 powr real (53::nat)"
    using x by (rule log_less_iff)
  with p have "log 2 x < real (53::nat)"
    by blast
  then have "\<lfloor>log 2 x\<rfloor> < 53"
    by (simp add: floor_less_iff)
  then have e: "?e \<le> 52"
    using x by (simp add: double_exponent_def)
  define ulp where "ulp = 2 powr real_of_int (?e - 52)"
  define K where "K = n * 2 ^ nat (52 - ?e)"
  have ulp: "ulp = 1 / 2 ^ nat (52 - ?e)"
  proof -
    have "ulp = 2 powr - real_of_int (52 - ?e)"
      by (simp add: ulp_def)
    also have "\<dots> = 1 / 2 powr real_of_int (52 - ?e)"
      by (simp only: powr_minus_divide)
    also have "real_of_int (52 - ?e) = real (nat (52 - ?e))"
      using e by simp
    finally show ?thesis
      by (simp only: powr_realpow [of 2, OF zero_less_numeral])
  qed
  have pos: "0 < ulp"
    by (simp add: ulp_def)
  have K: "real_of_int K * ulp = real_of_int n" "real_of_int n / ulp = real_of_int K"
    by (simp_all add: ulp K_def)
  have "x / ulp \<le> real_of_int n / ulp"
    using assms(3) pos by (simp add: divide_right_mono)
  then have "x / ulp \<le> real_of_int K"
    by (simp only: K)
  then have "py_round (x / ulp) \<le> K"
    by (rule py_round_le)
  then have "real_of_int (py_round (x / ulp)) \<le> real_of_int K"
    by (simp only: of_int_le_iff)
  then have "real_of_int (py_round (x / ulp)) * ulp \<le> real_of_int K * ulp"
    using pos by (simp only: mult_le_cancel_right_pos)
  then have "real_of_int (py_round (x / ulp)) * ulp \<le> real_of_int n"
    by (simp only: K)
  moreover have "round_to_double x = real_of_int (py_round (x / ulp)) * ulp"
    using x by (simp add: round_to_double_def Let_def ulp_def)
  ultimately show ?thesis
    by simp
qed

lemma remove_n_le:
  assumes "0 < d" and "d < 2 ^ 53" and "fraction \<le> 1"
  shows "remove_n d fraction \<le> d"
proof -
  have "fraction * real_of_int d \<le> real_of_int d"
    using assms(1,3) by (simp add: mult_le_cancel_right1)
  with assms(1,2) have "round_to_double (fraction * real_of_int d) \<le> real_of_int d"
    by (rule round_to_double_le_int)
  then have "py_round (round_to_double (fraction * real_of_int d)) \<le> d"
    by (rule py_round_le)
  then show ?thesis
    using assms(1) by (simp add: remove_n_def)
qed

lemma Counter_snoc: "Counter (xs @ [x]) = counter_incr x (Counter xs)"
  by (simp add: Counter_def)

lemma keys_counter_incr:
  "map fst (counter_incr x c) = (if x \<in> set (map fst c) then map fst c else map fst c @ [x])"
proof (cases "map_of c x")
  case None
  then have "x \<notin> fst ` set c"
    by (simp add: map_of_eq_None_iff)
  then show ?thesis
    using None by (simp add: counter_incr_def)
next
  case (Some n)
  then have "x \<in> fst ` set c"
    using map_of_SomeD [OF Some] by force
  then show ?thesis
    using Some by (simp add: counter_incr_def update_keys)
qed

lemma keys_Counter: "map fst (Counter xs) = rev (remdups (rev xs))"
proof (induction xs rule: rev_induct)
  case Nil
  show ?case by (simp add: Counter_def)
next
  case (snoc x xs)
  have "set (map fst (Counter xs)) = set xs"
    by (simp only: snoc.IH) simp
  then show ?case
    by (simp only: Counter_snoc keys_counter_incr snoc.IH) simp
qed

lemma distinct_keys_Counter: "distinct (map fst (Counter xs))"
  by (simp only: keys_Counter) simp

lemma set_keys_Counter: "set (map fst (Counter xs)) = set xs"
  by (simp only: keys_Counter) simp

lemma length_Counter: "length (Counter xs) = card (set xs)"
proof -
  have "length (map fst (Counter xs)) = card (set (map fst (Counter xs)))"
    using distinct_keys_Counter [of xs] by (simp only: distinct_card)
  then show ?thesis
    by (simp only: set_keys_Counter) simp
qed

lemma map_of_counter_incr:
  "map_of (counter_incr x c) y =
     (if y = x then Some (case map_of c x of None \<Rightarrow> 1 | Some n \<Rightarrow> n + 1) else map_of c y)"
  by (cases "map_of c x") (auto simp: counter_incr_def update_conv map_add_def split: option.splits)

lemma map_of_Counter:
  "map_of (Counter xs) c = (if c \<in> set xs then Some (int (count_list xs c)) else None)"
proof (induction xs arbitrary: c rule: rev_induct)
  case Nil
  show ?case by (simp add: Counter_def)
next
  case (snoc x xs)
  have "map_of (Counter xs) x = (if x \<in> set xs then Some (int (count_list xs x)) else None)"
    by (rule snoc.IH)
  then show ?case
    using snoc.IH by (auto simp: Counter_snoc map_of_counter_incr)
qed

lemma Counter_items: "(c, n) \<in> set (Counter xs) \<Longrightarrow> c \<in> set xs \<and> n = int (count_list xs c)"
  using map_of_Counter [of xs c] distinct_keys_Counter [of xs]
  by (auto split: if_splits)

lemma Counter_empty_iff: "Counter xs = [] \<longleftrightarrow> xs = []"
  using length_Counter [of xs] by (metis card_0_eq List.finite_set length_0_conv set_empty)

lemma most_common_items: "set (most_common c) = set c"
  by (simp add: most_common_def)

lemma distinct_ranking: "distinct (ranking xs)"
proof -
  have "mset (map fst (most_common (Counter xs))) = mset (map fst (Counter xs))"
    by (simp add: most_common_def)
  then show ?thesis
    unfolding ranking_def using distinct_keys_Counter [of xs] mset_eq_imp_distinct_iff by blast
qed

lemma set_ranking: "set (ranking xs) = set xs"
  using set_keys_Counter [of xs] by (simp add: ranking_def most_common_def)

lemma length_ranking: "length (ranking xs) = card (set xs)"
  by (simp add: ranking_def most_common_def length_Counter)

lemma snd_most_common:
  "map snd (most_common (Counter xs)) = map (\<lambda>c. int (count_list xs c)) (ranking xs)"
  unfolding ranking_def map_map
  by (rule map_cong [OF refl]) (auto simp: most_common_items dest: Counter_items)

text \<open>The ranking is in descending order of count.\<close>

lemma ranking_descending:
  "sorted (map (\<lambda>c. - int (count_list xs c)) (ranking xs))"
proof -
  have "sorted (map (\<lambda>item. - snd item) (most_common (Counter xs)))"
    unfolding most_common_def by (rule sorted_sort_key)
  moreover have "map (\<lambda>item. - snd item) (most_common (Counter xs)) =
      map uminus (map snd (most_common (Counter xs)))"
    by (simp add: comp_def)
  ultimately show ?thesis
    by (simp add: snd_most_common comp_def)
qed

text \<open>Symbols with the same count keep their order of first occurrence.\<close>

lemma ranking_stable:
  "filter (\<lambda>c. int (count_list xs c) = m) (ranking xs) =
   filter (\<lambda>c. int (count_list xs c) = m) (rev (remdups (rev xs)))"
proof -
  have eq: "filter (\<lambda>c. int (count_list xs c) = m) (map fst items) =
        map fst (filter (\<lambda>item. - snd item = - m) items)"
    if "set items \<subseteq> set (Counter xs)" for items
    using that
  proof (induction items)
    case Nil
    show ?case by simp
  next
    case (Cons it items)
    obtain c n where it: "it = (c, n)" by (cases it)
    with Cons.prems have "n = int (count_list xs c)"
      by (auto dest: Counter_items)
    with Cons it show ?case by simp
  qed
  have "filter (\<lambda>c. int (count_list xs c) = m) (ranking xs) =
        map fst (filter (\<lambda>item. - snd item = - m) (most_common (Counter xs)))"
    unfolding ranking_def by (rule eq) (simp add: most_common_items)
  also have "\<dots> = map fst (filter (\<lambda>item. - snd item = - m) (Counter xs))"
    unfolding most_common_def by (simp only: sort_key_stable)
  also have "\<dots> = filter (\<lambda>c. int (count_list xs c) = m) (map fst (Counter xs))"
    by (rule eq [symmetric]) simp
  finally show ?thesis
    by (simp only: keys_Counter)
qed


lemma ranking_take_drop_counts:
  assumes "a \<in> set (take j (ranking xs))" and "b \<in> set (drop j (ranking xs))"
  shows "count_list xs b \<le> count_list xs a"
proof -
  let ?f = "\<lambda>c. - int (count_list xs c)"
  have "sorted (map ?f (take j (ranking xs) @ drop j (ranking xs)))"
    using ranking_descending [of xs] by simp
  then have "\<forall>x \<in> set (map ?f (take j (ranking xs))). \<forall>y \<in> set (map ?f (drop j (ranking xs))). x \<le> y"
    by (simp only: map_append sorted_append) simp
  then have "?f a \<le> ?f b"
    using assms by simp
  then show ?thesis by simp
qed

lemma ranking_take_drop_sets:
  "set xs - set (take j (ranking xs)) = set (drop j (ranking xs))"
  "set xs - set (drop j (ranking xs)) = set (take j (ranking xs))"
proof -
  have d: "distinct (take j (ranking xs) @ drop j (ranking xs))"
    using distinct_ranking [of xs] by simp
  have u: "set xs = set (take j (ranking xs)) \<union> set (drop j (ranking xs))"
    using set_ranking [of xs] by (metis append_take_drop_id set_append)
  from d have i: "set (take j (ranking xs)) \<inter> set (drop j (ranking xs)) = {}"
    by (simp only: distinct_append)
  show "set xs - set (take j (ranking xs)) = set (drop j (ranking xs))"
    using u i by blast
  show "set xs - set (drop j (ranking xs)) = set (take j (ranking xs))"
    using u i by blast
qed

lemma remove_n_ge_1: "1 \<le> remove_n symbols_count fraction"
  by (simp add: remove_n_def)

lemma remove_by_frequency_unfold:
  assumes "xs \<noteq> []"
  shows "remove_by_frequency xs mode fraction =
     (let to_remove =
        (if mode = ''top''
         then set (take (nat (remove_n (int (card (set xs))) fraction)) (ranking xs))
         else set (drop (card (set xs) - nat (remove_n (int (card (set xs))) fraction))
                (ranking xs)))
      in (filter (\<lambda>char. char \<notin> to_remove) xs, to_remove))"
proof -
  let ?n = "remove_n (int (card (set xs))) fraction"
  have ne: "Counter xs \<noteq> []"
    using assms(1) by (simp add: Counter_empty_iff)
  have n1: "1 \<le> ?n"
    by (simp add: remove_n_ge_1)
  have top: "map fst (slice_to (most_common (Counter xs)) ?n) = take (nat ?n) (ranking xs)"
    using n1 by (simp add: slice_to_def ranking_def take_map)
  have len: "length (most_common (Counter xs)) = card (set xs)"
    by (simp add: most_common_def length_Counter)
  have bot: "map fst (slice_from (most_common (Counter xs)) (- ?n)) =
             drop (card (set xs) - nat ?n) (ranking xs)"
    using n1 by (simp add: slice_from_def ranking_def drop_map len)
  show ?thesis
    unfolding remove_by_frequency_def Let_def
    using ne by (simp only: length_Counter top bot if_False)
qed

text \<open>
  The removal for any fraction: with \<open>n = max(1, round(fraction * d))\<close>, where \<open>d\<close> is the
  number of distinct symbols, the \<open>k = min(n, d)\<close> first symbols of the ranking are removed
  for mode \<open>top\<close>, and the \<open>k\<close> last otherwise.
\<close>

lemma remove_by_frequency_general:
  assumes "text \<noteq> []"
    and "n = remove_n (int (card (set text))) fraction"
    and "k = min (nat n) (card (set text))"
    and "remove_by_frequency text mode fraction = (filtered, removed)"
  shows "removed = (if mode = ''top'' then set (take k (ranking text))
                    else set (drop (card (set text) - k) (ranking text)))"
    and "card removed = k"
    and "filtered = filter (\<lambda>char. char \<notin> removed) text"
    and "\<forall>r \<in> removed. \<forall>s \<in> set text - removed.
            if mode = ''top'' then count_list text s \<le> count_list text r
            else count_list text r \<le> count_list text s"
proof -
  let ?r = "ranking text"
  have len: "length ?r = card (set text)"
    by (rule length_ranking)
  have tk: "take (nat n) ?r = take k ?r"
    using assms(3) len by (simp add: min_def)
  have dk: "card (set text) - nat n = card (set text) - k"
    using assms(3) by (simp add: min_def)
  have unf: "remove_by_frequency text mode fraction =
     (let to_remove = (if mode = ''top'' then set (take k ?r)
                       else set (drop (card (set text) - k) ?r))
      in (filter (\<lambda>char. char \<notin> to_remove) text, to_remove))"
    using remove_by_frequency_unfold [OF assms(1), of mode fraction] by (simp only: assms(2) [symmetric] tk dk)
  show rem: "removed = (if mode = ''top'' then set (take k ?r)
                        else set (drop (card (set text) - k) ?r))"
    using unf assms(4) by (simp add: Let_def)
  show "filtered = filter (\<lambda>char. char \<notin> removed) text"
    using unf assms(4) rem by (simp add: Let_def)
  have kle: "k \<le> length ?r"
    using assms(3) len by simp
  show "card removed = k"
  proof (cases "mode = ''top''")
    case True
    have "distinct (take k ?r)"
      using distinct_ranking [of "text"] by (rule distinct_take)
    then have "card (set (take k ?r)) = length (take k ?r)"
      by (rule distinct_card)
    then show ?thesis
      using True rem kle by simp
  next
    case False
    have "distinct (drop (card (set text) - k) ?r)"
      using distinct_ranking [of "text"] by (rule distinct_drop)
    then have "card (set (drop (card (set text) - k) ?r)) = length (drop (card (set text) - k) ?r)"
      by (rule distinct_card)
    then show ?thesis
      using False rem kle len by simp
  qed
  show "\<forall>r \<in> removed. \<forall>s \<in> set text - removed.
            if mode = ''top'' then count_list text s \<le> count_list text r
            else count_list text r \<le> count_list text s"
  proof (cases "mode = ''top''")
    case True
    then show ?thesis
      using rem ranking_take_drop_counts [of _ k "text"] ranking_take_drop_sets(1) [of "text" k]
      by auto
  next
    case False
    then show ?thesis
      using rem ranking_take_drop_counts [of _ "card (set text) - k" "text"]
        ranking_take_drop_sets(2) [of "text" "card (set text) - k"]
      by auto
  qed
qed

text \<open>A text has at most 256 distinct characters here, far fewer than \<open>2 ^ 53\<close>.\<close>

lemma card_text_bound: "int (card (set (text :: string))) < 2 ^ 53"
proof -
  have "card (set text) \<le> card (UNIV :: char set)"
    by (rule card_mono) simp_all
  then have "card (set text) \<le> 256"
    by (simp only: card_UNIV_char)
  then show ?thesis
    by simp
qed

text \<open>The float 0.34 is 6124895493223875 / 2 ^ 54; its float product with 4 is exact.\<close>

lemma remove_n_example: "remove_n 4 (6124895493223875 / 18014398509481984) = 1"
proof -
  have e: "double_exponent (6124895493223875 / 18014398509481984 * 4) = int 0"
    by (rule double_exponent_nat) simp_all
  have "remove_n 4 (6124895493223875 / 18014398509481984) =
      max 1 (py_round (round_to_double (6124895493223875 / 18014398509481984 * 4)))"
    by (simp only: remove_n_def of_int_numeral)
  also have "round_to_double (6124895493223875 / 18014398509481984 * 4) =
      6124895493223875 / 4503599627370496"
    using e by (simp add: round_to_double_def powr_minus py_round_def)
  also have "max 1 (py_round (6124895493223875 / 4503599627370496)) = 1"
    by (simp add: py_round_def)
  finally show ?thesis .
qed

lemma remove_n_half_of_three: "remove_n 3 (1 / 2) = 2"
proof -
  have e: "double_exponent (1 / 2 * 3) = int 0"
    by (rule double_exponent_nat) simp_all
  have "remove_n 3 (1 / 2) = max 1 (py_round (round_to_double (1 / 2 * 3)))"
    by (simp only: remove_n_def of_int_numeral)
  also have "round_to_double (1 / 2 * 3) = 3 / 2"
    using e by (simp add: round_to_double_def powr_minus py_round_def)
  also have "max 1 (py_round (3 / 2)) = 2"
    by (simp add: py_round_def)
  finally show ?thesis .
qed

text \<open>
  C7. For a non-empty text and a fraction between 0 and 1 (a share of the alphabet), with
  \<open>n = max(1, round(fraction * d))\<close>, where \<open>d\<close> is the number of distinct symbols and the
  product is the float product, \<open>remove_by_frequency\<close> removes exactly \<open>n\<close> symbols: for
  mode \<open>top\<close> the first \<open>n\<close> of the ranking, otherwise the last \<open>n\<close>. The ranking lists every
  symbol once, in descending order of count, symbols of equal count in order of first
  occurrence. So for \<open>top\<close> every removed symbol occurs at least as often as every retained
  one, and for \<open>bottom\<close> at most as often. The returned text is the input without the
  occurrences of the removed symbols, in the original order. In particular, for the text
  aaabbbccd, mode \<open>top\<close> and the float 0.34, the symbol a is removed and bbbccd returned.
\<close>

theorem remove_by_frequency_removes_ranked:
  assumes "text \<noteq> []" and "0 \<le> fraction" and "fraction \<le> 1"
    and "n = remove_n (int (card (set text))) fraction"
    and "remove_by_frequency text mode fraction = (filtered, removed)"
  shows "1 \<le> n \<and> nat n \<le> card (set text) \<and>
         removed = (if mode = ''top'' then set (take (nat n) (ranking text))
                    else set (drop (card (set text) - nat n) (ranking text))) \<and>
         card removed = nat n \<and>
         filtered = filter (\<lambda>char. char \<notin> removed) text \<and>
         (\<forall>r \<in> removed. \<forall>s \<in> set text - removed.
            if mode = ''top'' then count_list text s \<le> count_list text r
            else count_list text r \<le> count_list text s) \<and>
         distinct (ranking text) \<and> set (ranking text) = set text \<and>
         sorted (map (\<lambda>c. - int (count_list text c)) (ranking text)) \<and>
         (\<forall>m. filter (\<lambda>c. int (count_list text c) = m) (ranking text) =
              filter (\<lambda>c. int (count_list text c) = m) (rev (remdups (rev text)))) \<and>
         remove_by_frequency ''aaabbbccd'' ''top'' (6124895493223875 / 18014398509481984) =
           (''bbbccd'', {CHR ''a''})"
proof -
  have d: "0 < int (card (set text))"
    using assms(1) by (simp add: card_gt_0_iff)
  have n1: "1 \<le> n"
    using assms(4) by (simp add: remove_n_ge_1)
  have "n \<le> int (card (set text))"
    unfolding assms(4) using d card_text_bound assms(3) by (rule remove_n_le)
  then have nd: "nat n \<le> card (set text)"
    by simp
  then have k: "nat n = min (nat n) (card (set text))"
    by simp
  note g = remove_by_frequency_general [OF assms(1) assms(4) k assms(5)]
  have ex: "remove_by_frequency ''aaabbbccd'' ''top'' (6124895493223875 / 18014398509481984) =
      (''bbbccd'', {CHR ''a''})"
    by (simp add: remove_by_frequency_def Counter_def counter_incr_def most_common_def
        remove_n_example slice_to_def Let_def)
  show ?thesis
    using n1 nd g distinct_ranking [of "text"] set_ranking [of "text"]
      ranking_descending [of "text"] ranking_stable [of "text"] ex
    by (intro conjI allI) assumption+
qed

theorem remove_by_frequency_removes_ranked_witness:
  "''abcbcc'' \<noteq> [] \<and> (0 :: real) \<le> 1 / 2 \<and> (1 / 2 :: real) \<le> 1 \<and>
   (2::int) = remove_n (int (card (set ''abcbcc''))) (1 / 2) \<and>
   remove_by_frequency ''abcbcc'' ''bottom'' (1 / 2) = (''ccc'', {CHR ''a'', CHR ''b''}) \<and>
   {CHR ''a'', CHR ''b''} =
     (if ''bottom'' = ''top'' then set (take (nat 2) (ranking ''abcbcc''))
      else set (drop (card (set ''abcbcc'') - nat 2) (ranking ''abcbcc''))) \<and>
   card {CHR ''a'', CHR ''b''} = nat 2"
proof -
  have h1: "''abcbcc'' \<noteq> []"
    by simp
  have h0: "(0 :: real) \<le> 1 / 2"
    by simp
  have h2: "(1 / 2 :: real) \<le> 1"
    by simp
  have "set ''abcbcc'' = {CHR ''a'', CHR ''b'', CHR ''c''}"
    by auto
  then have c: "card (set ''abcbcc'') = 3"
    by simp
  have h3: "(2::int) = remove_n (int (card (set ''abcbcc''))) (1 / 2)"
    using c by (simp add: remove_n_half_of_three)
  have h4: "remove_by_frequency ''abcbcc'' ''bottom'' (1 / 2) = (''ccc'', {CHR ''a'', CHR ''b''})"
    by (simp add: remove_by_frequency_def Counter_def counter_incr_def most_common_def
        remove_n_half_of_three slice_from_def Let_def) auto
  note r = remove_by_frequency_removes_ranked [OF h1 h0 h2 h3 h4]
  from r have c1: "{CHR ''a'', CHR ''b''} =
     (if ''bottom'' = ''top'' then set (take (nat 2) (ranking ''abcbcc''))
      else set (drop (card (set ''abcbcc'') - nat 2) (ranking ''abcbcc'')))"
    by (rule conjunct1 [OF conjunct2 [OF conjunct2]])
  from r have c2: "card {CHR ''a'', CHR ''b''} = nat 2"
    by (rule conjunct1 [OF conjunct2 [OF conjunct2 [OF conjunct2]]])
  show ?thesis
    using h1 h0 h2 h3 h4 c1 c2 by (intro conjI)
qed

text \<open>
  C10. On the empty text \<open>remove_by_frequency\<close> returns the text unchanged and the empty set
  of removed symbols, for every mode and fraction.
\<close>

theorem remove_by_frequency_empty:
  "remove_by_frequency [] mode fraction = ([], {})"
  by (simp add: remove_by_frequency_def Counter_def)

section \<open>Properties of entropy and average code length\<close>

lemma entropy_term_pos:
  assumes "0 < c" and "c \<le> n"
  shows "entropy_term c n = Inr (real_of_int c / real_of_int n * log 2 (real_of_int n / real_of_int c))"
    and "0 \<le> real_of_int c / real_of_int n * log 2 (real_of_int n / real_of_int c)"
    and "real_of_int c / real_of_int n * log 2 (real_of_int n / real_of_int c) = 0 \<longleftrightarrow> c = n"
proof -
  have n: "0 < n" using assms by simp
  have p: "0 < real_of_int c / real_of_int n"
    using assms n by simp
  have q: "1 \<le> real_of_int n / real_of_int c"
    using assms by simp
  show "entropy_term c n = Inr (real_of_int c / real_of_int n * log 2 (real_of_int n / real_of_int c))"
  proof -
    have "0 < real_of_int n / real_of_int c"
      using assms n by simp
    then have "\<not> real_of_int n / real_of_int c \<le> 0"
      by linarith
    then show ?thesis
      using p assms n by (simp add: entropy_term_def Let_def)
  qed
  have l: "0 \<le> log 2 (real_of_int n / real_of_int c)"
    using q by simp
  show "0 \<le> real_of_int c / real_of_int n * log 2 (real_of_int n / real_of_int c)"
    by (rule mult_nonneg_nonneg [OF less_imp_le [OF p] l])
  have "log 2 (real_of_int n / real_of_int c) = 0 \<longleftrightarrow> real_of_int n / real_of_int c = 1"
  proof
    assume "log 2 (real_of_int n / real_of_int c) = 0"
    then have "\<not> 0 < log 2 (real_of_int n / real_of_int c)"
      by simp
    moreover have "0 < real_of_int n / real_of_int c"
      using q by linarith
    ultimately have "\<not> 1 < real_of_int n / real_of_int c"
      by (simp only: zero_less_log_cancel_iff [of 2]) simp
    then show "real_of_int n / real_of_int c = 1"
      using q by linarith
  next
    assume "real_of_int n / real_of_int c = 1"
    then show "log 2 (real_of_int n / real_of_int c) = 0"
      by simp
  qed
  also have "\<dots> \<longleftrightarrow> c = n"
    using assms by auto
  finally have "log 2 (real_of_int n / real_of_int c) = 0 \<longleftrightarrow> c = n" .
  moreover have "real_of_int c / real_of_int n \<noteq> 0"
    using p by linarith
  ultimately show "real_of_int c / real_of_int n * log 2 (real_of_int n / real_of_int c) = 0 \<longleftrightarrow> c = n"
    by (simp only: mult_eq_0_iff) simp
qed


lemma entropy_sum_pos:
  assumes "\<forall>c \<in> set cs. 0 < c \<and> c \<le> n"
  shows "entropy_sum cs n acc =
         Inr (acc + (\<Sum>c\<leftarrow>cs. real_of_int c / real_of_int n * log 2 (real_of_int n / real_of_int c)))"
  using assms
proof (induction cs arbitrary: acc)
  case Nil
  show ?case by simp
next
  case (Cons c cs)
  have "entropy_term c n =
        Inr (real_of_int c / real_of_int n * log 2 (real_of_int n / real_of_int c))"
    using Cons.prems by (intro entropy_term_pos(1)) simp_all
  moreover have "\<forall>c \<in> set cs. 0 < c \<and> c \<le> n"
    using Cons.prems by simp
  ultimately show ?case
    by (simp add: Cons.IH)
qed

lemma sum_list_pos_int:
  fixes cs :: "int list"
  assumes "\<forall>c \<in> set cs. 0 < c"
  shows "0 \<le> sum_list cs" and "cs \<noteq> [] \<Longrightarrow> 0 < sum_list cs"
    and "\<forall>c \<in> set cs. c \<le> sum_list cs"
  using assms
proof (induction cs)
  case Nil
  { case 1 show ?case by simp }
  { case 2 then show ?case by simp }
  { case 3 show ?case by simp }
next
  case (Cons a cs)
  { case 1 with Cons.IH(1) show ?case by simp }
  { case 2 with Cons.IH(1) show ?case by fastforce }
  { case 3 with Cons.IH(1,3) show ?case by fastforce }
qed

lemma all_equal_sum_length:
  fixes cs :: "int list"
  assumes "\<forall>c \<in> set cs. 0 < c" and "cs \<noteq> []"
  shows "(\<forall>c \<in> set cs. c = sum_list cs) \<longleftrightarrow> length cs \<le> 1"
proof (cases cs)
  case Nil
  with assms show ?thesis by simp
next
  case (Cons a as)
  show ?thesis
  proof (cases as)
    case Nil
    with Cons show ?thesis by simp
  next
    case (Cons b bs)
    have "0 \<le> sum_list bs"
      using assms(1) \<open>cs = a # as\<close> Cons by (intro sum_list_pos_int(1)) simp
    moreover have "0 < b"
      using assms(1) \<open>cs = a # as\<close> Cons by simp
    ultimately have "a \<noteq> sum_list cs"
      using \<open>cs = a # as\<close> Cons by simp
    then show ?thesis
      using \<open>cs = a # as\<close> Cons by auto
  qed
qed

text \<open>
  C6. For a counter whose counts are all positive, \<open>calculate_entropy\<close> returns a value
  (no error), the value is not negative, and it is 0 exactly when the counter has at most
  one symbol; the empty counter, of total 0, gives 0.
\<close>

theorem calculate_entropy_nonneg_zero_iff:
  assumes "\<forall>c \<in> set (map snd counter). 0 < c"
  shows "\<exists>h. calculate_entropy counter = Inr h \<and> 0 \<le> h \<and> (h = 0 \<longleftrightarrow> length counter \<le> 1)"
proof (cases "counter = []")
  case True
  then show ?thesis
    by (simp add: calculate_entropy_def)
next
  case False
  let ?cs = "map snd counter"
  let ?n = "sum_list ?cs"
  let ?T = "\<lambda>c. real_of_int c / real_of_int ?n * log 2 (real_of_int ?n / real_of_int c)"
  let ?h = "\<Sum>c\<leftarrow>?cs. ?T c"
  have ne: "?cs \<noteq> []"
    using False by simp
  have npos: "0 < ?n"
    using assms ne by (rule sum_list_pos_int(2))
  have bound: "\<forall>c \<in> set ?cs. 0 < c \<and> c \<le> ?n"
    using assms sum_list_pos_int(3) [OF assms] by blast
  have "entropy_sum ?cs ?n 0 = Inr (0 + ?h)"
    using bound by (rule entropy_sum_pos)
  then have val: "calculate_entropy counter = Inr ?h"
    using npos by (simp add: calculate_entropy_def Let_def)
  have nonneg: "0 \<le> x" if "x \<in> set (map ?T ?cs)" for x
  proof -
    from that obtain c where "c \<in> set ?cs" and "x = ?T c"
      by auto
    then show ?thesis
      using bound entropy_term_pos(2) [of c ?n] by blast
  qed
  then have h0: "0 \<le> ?h"
    by (rule sum_list_nonneg)
  have "?h = 0 \<longleftrightarrow> (\<forall>x \<in> set (map ?T ?cs). x = 0)"
    using nonneg by (rule sum_list_nonneg_eq_0_iff)
  also have "\<dots> \<longleftrightarrow> (\<forall>c \<in> set ?cs. ?T c = 0)"
    by auto
  also have "\<dots> \<longleftrightarrow> (\<forall>c \<in> set ?cs. c = ?n)"
    using bound entropy_term_pos(3) [of _ ?n] by blast
  also have "\<dots> \<longleftrightarrow> length ?cs \<le> 1"
    using assms ne by (rule all_equal_sum_length)
  finally have "?h = 0 \<longleftrightarrow> length counter \<le> 1"
    by simp
  with val h0 show ?thesis
    by blast
qed


theorem calculate_entropy_nonneg_zero_iff_witness:
  "calculate_entropy [(''a'', 3)] = Inr 0 \<and>
   calculate_entropy [(''a'', 3), (''b'', 1)] \<noteq> Inr 0 \<and>
   (\<exists>h. calculate_entropy [(''a'', 3), (''b'', 1)] = Inr h \<and> 0 \<le> h)"
proof -
  have h1: "\<forall>c \<in> set (map snd [(''a'', 3 :: int)]). 0 < c"
    by simp
  have h2: "\<forall>c \<in> set (map snd [(''a'', 3), (''b'', 1 :: int)]). 0 < c"
    by simp
  have "calculate_entropy [(''a'', 3)] = Inr 0"
    using calculate_entropy_nonneg_zero_iff [OF h1] by auto
  moreover obtain h where "calculate_entropy [(''a'', 3), (''b'', 1)] = Inr h" and "0 \<le> h"
    and "h = 0 \<longleftrightarrow> length [(''a'', 3), (''b'', 1 :: int)] \<le> 1"
    using calculate_entropy_nonneg_zero_iff [OF h2] by blast
  ultimately show ?thesis
    by simp
qed









section \<open>Properties of Huffman coding\<close>

lemma update_fresh: "k \<notin> fst ` set al \<Longrightarrow> AList.update k v al = al @ [(k, v)]"
  by (induction al) auto

lemma tree_paths_leaf: "tree_paths (Node (Some ch) f None None) = [(ch, [])]"
  by simp

lemma tree_paths_inner:
  "tree_paths (Node None f (Some lnode) (Some rnode)) =
     map (\<lambda>(s, p). (s, CHR ''0'' # p)) (tree_paths rnode) @
     map (\<lambda>(s, p). (s, CHR ''1'' # p)) (tree_paths lnode)"
  by simp

text \<open>A well-formed tree is a leaf or an inner node with two well-formed children.\<close>

lemma well_formed_cases:
  assumes "well_formed t"
  obtains (leaf) ch f where "t = Node (Some ch) f None None"
  | (inner) f lnode rnode where "t = Node None f (Some lnode) (Some rnode)"
      and "well_formed lnode" and "well_formed rnode"
proof (cases t)
  case (Node c f l r)
  show ?thesis
  proof (cases c)
    case None
    with Node assms obtain lnode rnode where "l = Some lnode" and "r = Some rnode"
      and "well_formed lnode" and "well_formed rnode"
      by (auto split: option.splits)
    with Node None show ?thesis
      using inner [of f lnode rnode] by simp
  next
    case (Some ch)
    with Node assms show ?thesis
      using leaf [of ch f] by simp
  qed
qed

lemma well_formed_induct [consumes 1, case_names leaf inner]:
  assumes "well_formed t"
    and "\<And>ch f. P (Node (Some ch) f None None)"
    and "\<And>f lnode rnode. well_formed lnode \<Longrightarrow> well_formed rnode \<Longrightarrow> P lnode \<Longrightarrow> P rnode \<Longrightarrow>
           P (Node None f (Some lnode) (Some rnode))"
  shows "P t"
  using assms(1)
proof (induction t rule: well_formed.induct)
  case (1 c f l r)
  from "1.prems" show ?case
  proof (cases rule: well_formed_cases)
    case (leaf ch f')
    then show ?thesis using assms(2) by simp
  next
    case (inner f' lnode rnode)
    then have "P lnode" and "P rnode"
      using "1.IH" by simp_all
    with inner show ?thesis using assms(3) by simp
  qed
qed


lemma generate_codes_leaf:
  "generate_codes (Node (Some ch) f None None) code hc =
     AList.update ch (if code = [] then ''0'' else code) hc"
  by simp

lemma generate_codes_inner:
  "generate_codes (Node None f (Some lnode) (Some rnode)) code hc =
     generate_codes lnode (code @ ''1'') (generate_codes rnode (code @ ''0'') hc)"
  by simp

lemma generate_codes_keys:
  "well_formed t \<Longrightarrow>
   fst ` set (generate_codes t code hc) = fst ` set hc \<union> fst ` set (tree_paths t)"
proof (induction t arbitrary: code hc rule: well_formed_induct)
  case (leaf ch f)
  show ?case
    by (simp only: generate_codes_leaf tree_paths_leaf dom_update) simp
next
  case (inner f lnode rnode)
  have "fst ` set (tree_paths (Node None f (Some lnode) (Some rnode))) =
        fst ` set (tree_paths rnode) \<union> fst ` set (tree_paths lnode)"
    by (simp add: image_Un image_image case_prod_unfold)
  then show ?case
    by (simp only: generate_codes_inner inner.IH) blast
qed

text \<open>
  On a tree with distinct symbols, none of which has a code yet, \<open>generate_codes\<close> appends
  the symbols with their paths behind the code it was called with.
\<close>

lemma generate_codes_paths:
  "well_formed t \<Longrightarrow> distinct (map fst (tree_paths t)) \<Longrightarrow>
   fst ` set hc \<inter> fst ` set (tree_paths t) = {} \<Longrightarrow>
   generate_codes t code hc =
     hc @ map (\<lambda>(s, p). (s, if code @ p = [] then ''0'' else code @ p)) (tree_paths t)"
proof (induction t arbitrary: code hc rule: well_formed_induct)
  case (leaf ch f)
  then have "ch \<notin> fst ` set hc"
    by simp
  then show ?case
    by (simp add: update_fresh)
next
  case (inner f lnode rnode)
  let ?R = "tree_paths rnode" and ?L = "tree_paths lnode"
  let ?g = "\<lambda>c. (\<lambda>(s, p). (s, if c @ p = [] then ''0'' else c @ p))"
  have keys: "map fst (tree_paths (Node None f (Some lnode) (Some rnode))) = map fst ?R @ map fst ?L"
    by (simp add: case_prod_unfold comp_def)
  have dR: "distinct (map fst ?R)" and dL: "distinct (map fst ?L)"
    and dis: "fst ` set ?R \<inter> fst ` set ?L = {}"
    using inner.prems(1) by (simp_all only: keys distinct_append set_map)
  have sub: "fst ` set (tree_paths (Node None f (Some lnode) (Some rnode))) =
             fst ` set ?R \<union> fst ` set ?L"
    by (simp add: image_Un image_image case_prod_unfold)
  have hR: "fst ` set hc \<inter> fst ` set ?R = {}" and hL: "fst ` set hc \<inter> fst ` set ?L = {}"
    using inner.prems(2) sub by blast+
  have r: "generate_codes rnode (code @ ''0'') hc = hc @ map (?g (code @ ''0'')) ?R"
    using dR hR by (rule inner.IH(2))
  have kr: "fst ` set (hc @ map (?g (code @ ''0'')) ?R) = fst ` set hc \<union> fst ` set ?R"
    by (simp add: image_Un image_image case_prod_unfold)
  have l: "generate_codes lnode (code @ ''1'') (hc @ map (?g (code @ ''0'')) ?R) =
           (hc @ map (?g (code @ ''0'')) ?R) @ map (?g (code @ ''1'')) ?L"
    using dL
  proof (rule inner.IH(1))
    show "fst ` set (hc @ map (?g (code @ ''0'')) ?R) \<inter> fst ` set ?L = {}"
      using hL dis by (simp only: kr) blast
  qed
  have "map (?g code) (tree_paths (Node None f (Some lnode) (Some rnode))) =
        map (?g (code @ ''0'')) ?R @ map (?g (code @ ''1'')) ?L"
    by (simp add: case_prod_unfold comp_def)
  then show ?case
    by (simp only: generate_codes_inner r l) simp
qed


lemma tree_paths_inner_keys:
  "map fst (tree_paths (Node None f (Some lnode) (Some rnode))) =
     map fst (tree_paths rnode) @ map fst (tree_paths lnode)"
  by (simp add: case_prod_unfold comp_def)

lemma tree_paths_inner_codes:
  "map snd (tree_paths (Node None f (Some lnode) (Some rnode))) =
     map ((#) CHR ''0'') (map snd (tree_paths rnode)) @
     map ((#) CHR ''1'') (map snd (tree_paths lnode))"
  by (simp add: case_prod_unfold comp_def)

lemma prefix_free_branches:
  fixes R L :: "string list"
  assumes "a \<noteq> b"
    and "distinct R \<and> (\<forall>c \<in> set R. \<forall>d \<in> set R. prefix c d \<longrightarrow> c = d)"
    and "distinct L \<and> (\<forall>c \<in> set L. \<forall>d \<in> set L. prefix c d \<longrightarrow> c = d)"
  shows "distinct (map ((#) a) R @ map ((#) b) L) \<and>
         (\<forall>c \<in> set (map ((#) a) R @ map ((#) b) L).
            \<forall>d \<in> set (map ((#) a) R @ map ((#) b) L). prefix c d \<longrightarrow> c = d)"
proof
  show "distinct (map ((#) a) R @ map ((#) b) L)"
    using assms by (auto simp: distinct_map)
  show "\<forall>c \<in> set (map ((#) a) R @ map ((#) b) L).
            \<forall>d \<in> set (map ((#) a) R @ map ((#) b) L). prefix c d \<longrightarrow> c = d"
    using assms by auto
qed

text \<open>The paths of a well-formed tree are distinct, and none is a prefix of another.\<close>

lemma tree_paths_prefix_free:
  "well_formed t \<Longrightarrow>
   distinct (map snd (tree_paths t)) \<and>
   (\<forall>c \<in> set (map snd (tree_paths t)). \<forall>d \<in> set (map snd (tree_paths t)). prefix c d \<longrightarrow> c = d)"
proof (induction t rule: well_formed_induct)
  case (leaf ch f)
  show ?case by simp
next
  case (inner f lnode rnode)
  have "CHR ''0'' \<noteq> CHR ''1''"
    by simp
  then show ?case
    unfolding tree_paths_inner_codes using inner.IH(2) inner.IH(1)
    by (rule prefix_free_branches)
qed

lemma tree_paths_inner_nonempty:
  assumes "well_formed t" and "char t = None"
  shows "[] \<notin> set (map snd (tree_paths t))"
  using assms
proof (cases rule: well_formed_cases)
  case (leaf ch f)
  with assms(2) show ?thesis by simp
next
  case (inner f lnode rnode)
  show ?thesis
    unfolding inner tree_paths_inner_codes by auto
qed

lemma two_elements:
  assumes "1 < length xs"
  shows "\<exists>a b rest. xs = a # b # rest"
proof (cases xs)
  case Nil
  with assms show ?thesis by simp
next
  case (Cons a ys)
  with assms show ?thesis by (cases ys) simp_all
qed

lemma huffman_merge_stop: "\<not> 1 < length nodes \<Longrightarrow> huffman_merge nodes = nodes"
  by (subst huffman_merge.simps) simp

lemma huffman_merge_step:
  assumes "sort_key freq nodes = lnode # rnode # rest"
  shows "huffman_merge nodes =
         huffman_merge (rest @ [Node None (freq lnode + freq rnode) (Some lnode) (Some rnode)])"
proof -
  have "length (sort_key freq nodes) = length rest + 2"
    by (simp add: assms)
  then have "1 < length nodes"
    by simp
  then show ?thesis
    using assms by (subst huffman_merge.simps) simp
qed

text \<open>An induction rule for the loop: it stops, or it merges the two first sorted nodes.\<close>

lemma huffman_merge_induct [case_names stop step]:
  assumes "\<And>nodes. \<not> 1 < length nodes \<Longrightarrow> P nodes"
    and "\<And>nodes lnode rnode rest. sort_key freq nodes = lnode # rnode # rest \<Longrightarrow>
           P (rest @ [Node None (freq lnode + freq rnode) (Some lnode) (Some rnode)]) \<Longrightarrow> P nodes"
  shows "P nodes"
proof (induction nodes rule: huffman_merge.induct)
  case (1 nodes)
  show ?case
  proof (cases "1 < length nodes")
    case False
    then show ?thesis by (rule assms(1))
  next
    case True
    then have "1 < length (sort_key freq nodes)"
      by simp
    then obtain lnode rnode rest where s: "sort_key freq nodes = lnode # rnode # rest"
      using two_elements by blast
    have "P (rest @ [Node None (freq lnode + freq rnode) (Some lnode) (Some rnode)])"
      using True s by (intro "1.IH") simp_all
    with s show ?thesis by (rule assms(2))
  qed
qed

lemma huffman_merge_singleton:
  "nodes \<noteq> [] \<Longrightarrow> \<exists>tree. huffman_merge nodes = [tree]"
proof (induction nodes rule: huffman_merge_induct)
  case (stop nodes)
  then have "length nodes = 1"
    by (cases nodes) simp_all
  then obtain tree where "nodes = [tree]"
    by (cases nodes) simp_all
  with stop show ?case
    by (simp add: huffman_merge_stop)
next
  case (step nodes lnode rnode rest)
  then show ?case
    by (simp add: huffman_merge_step)
qed

lemma huffman_merge_root_inner:
  "1 < length nodes \<Longrightarrow> huffman_merge nodes = [tree] \<Longrightarrow> char tree = None"
proof (induction nodes rule: huffman_merge_induct)
  case (stop nodes)
  then show ?case by simp
next
  case (step nodes lnode rnode rest)
  let ?m = "Node None (freq lnode + freq rnode) (Some lnode) (Some rnode)"
  have eq: "huffman_merge (rest @ [?m]) = [tree]"
    using step.prems(2) step.hyps by (simp add: huffman_merge_step)
  show ?case
  proof (cases "rest = []")
    case True
    then have "huffman_merge (rest @ [?m]) = [?m]"
      by (simp add: huffman_merge_stop)
    with eq have "tree = ?m" by simp
    then show ?thesis by simp
  next
    case False
    then have "1 < length (rest @ [?m])"
      by (cases rest) simp_all
    then show ?thesis
      using eq by (rule step.IH)
  qed
qed

lemma huffman_merge_well_formed:
  "list_all well_formed nodes \<Longrightarrow> list_all well_formed (huffman_merge nodes)"
proof (induction nodes rule: huffman_merge_induct)
  case (stop nodes)
  then show ?case by (simp add: huffman_merge_stop)
next
  case (step nodes lnode rnode rest)
  have "list_all well_formed (sort_key freq nodes)"
    using step.prems by (simp add: list_all_iff)
  then have "list_all well_formed (rest @ [Node None (freq lnode + freq rnode) (Some lnode) (Some rnode)])"
    by (simp add: step.hyps)
  then show ?case
    using step.IH step.hyps by (simp add: huffman_merge_step)
qed

text \<open>The loop keeps the multiset of the symbols of the nodes.\<close>

lemma huffman_merge_symbols:
  "(\<Sum>n \<in># mset (huffman_merge nodes). mset (map fst (tree_paths n))) =
   (\<Sum>n \<in># mset nodes. mset (map fst (tree_paths n)))"
proof (induction nodes rule: huffman_merge_induct)
  case (stop nodes)
  then show ?case by (simp add: huffman_merge_stop)
next
  case (step nodes lnode rnode rest)
  let ?g = "\<lambda>n. mset (map fst (tree_paths n))"
  let ?m = "Node None (freq lnode + freq rnode) (Some lnode) (Some rnode)"
  have "map fst (tree_paths ?m) = map fst (tree_paths rnode) @ map fst (tree_paths lnode)"
    by (rule tree_paths_inner_keys)
  then have "mset (map fst (tree_paths ?m)) =
      mset (map fst (tree_paths rnode) @ map fst (tree_paths lnode))"
    by (rule arg_cong)
  then have m: "image_mset fst (mset (tree_paths ?m)) =
      image_mset fst (mset (tree_paths rnode)) + image_mset fst (mset (tree_paths lnode))"
    by (simp del: tree_paths.simps)
  have "(\<Sum>n \<in># mset nodes. ?g n) = (\<Sum>n \<in># mset (sort_key freq nodes). ?g n)"
    by simp
  also have "\<dots> = ?g lnode + ?g rnode + (\<Sum>n \<in># mset rest. ?g n)"
    by (simp add: step.hyps)
  also have "\<dots> = (\<Sum>n \<in># mset (rest @ [?m]). ?g n)"
    by (simp add: m del: tree_paths.simps)
  finally show ?case
    using step.IH step.hyps by (simp only: huffman_merge_step)
qed


text \<open>The tree that \<open>build_huffman_codes\<close> builds for a non-empty counter.\<close>

lemma huffman_tree:
  assumes "counter \<noteq> []"
  obtains tree where
    "huffman_merge (map (\<lambda>(ch, fr). Node (Some ch) fr None None) counter) = [tree]"
    and "well_formed tree"
    and "mset (map fst (tree_paths tree)) = mset (map fst counter)"
    and "1 < length counter \<Longrightarrow> char tree = None"
proof -
  let ?N = "map (\<lambda>(ch, fr). Node (Some ch) fr None None) counter"
  have "?N \<noteq> []"
    using assms by simp
  then obtain tree where t: "huffman_merge ?N = [tree]"
    using huffman_merge_singleton by blast
  have "list_all well_formed ?N"
    by (simp add: list_all_iff case_prod_unfold)
  then have "list_all well_formed (huffman_merge ?N)"
    by (rule huffman_merge_well_formed)
  then have wf: "well_formed tree"
    by (simp add: t)
  have "(\<Sum>n \<in># mset ?N. mset (map fst (tree_paths n))) = mset (map fst counter)"
    by (induction counter) (simp_all add: case_prod_unfold)
  then have "(\<Sum>n \<in># mset (huffman_merge ?N). mset (map fst (tree_paths n))) = mset (map fst counter)"
    by (simp only: huffman_merge_symbols)
  then have ms: "mset (map fst (tree_paths tree)) = mset (map fst counter)"
    by (simp add: t del: tree_paths.simps)
  have "char tree = None" if "1 < length counter"
  proof -
    from that have "1 < length ?N" by simp
    then show ?thesis using t by (rule huffman_merge_root_inner)
  qed
  with t wf ms show ?thesis
    by (rule that)
qed

lemma build_huffman_codes_unfold:
  assumes "huffman_merge (map (\<lambda>(ch, fr). Node (Some ch) fr None None) counter) = [tree]"
  shows "build_huffman_codes chars counter =
     (case join_codes (generate_codes tree [] []) chars of
        Inl e \<Rightarrow> Inl e
      | Inr encoded \<Rightarrow> Inr (generate_codes tree [] [], encoded, tree))"
  by (simp add: build_huffman_codes_def assms Let_def)


lemma covered_keys: "covered seq codec \<longleftrightarrow> set seq \<subseteq> fst ` set codec"
  by (auto simp: covered_def map_of_eq_None_iff)

lemma build_huffman_codes_succeeds:
  assumes "counter \<noteq> []" and "set chars \<subseteq> fst ` set counter"
  shows "\<exists>codes encoded tree.
         build_huffman_codes chars counter = Inr (codes, encoded, tree) \<and>
         fst ` set codes = fst ` set counter \<and>
         encoded = concat (map (code_of codes) chars) \<and>
         huffman_merge (map (\<lambda>(ch, fr). Node (Some ch) fr None None) counter) = [tree]"
proof -
  from assms(1) obtain tree where
    t: "huffman_merge (map (\<lambda>(ch, fr). Node (Some ch) fr None None) counter) = [tree]"
    and wf: "well_formed tree"
    and ms: "mset (map fst (tree_paths tree)) = mset (map fst counter)"
    using huffman_tree by blast
  let ?codes = "generate_codes tree [] []"
  have "set (map fst (tree_paths tree)) = set (map fst counter)"
    using ms by (rule mset_eq_setD)
  then have keys: "fst ` set ?codes = fst ` set counter"
    using generate_codes_keys [OF wf, of "[]" "[]"] by simp
  then have "covered chars ?codes"
    using assms(2) by (simp add: covered_keys)
  then have "join_codes ?codes chars = Inr (concat (map (code_of ?codes) chars))"
    by (rule join_codes_covered)
  then have "build_huffman_codes chars counter =
      Inr (?codes, concat (map (code_of ?codes) chars), tree)"
    by (simp add: build_huffman_codes_unfold [OF t])
  with keys t show ?thesis
    by blast
qed




lemma tree_paths_inner_keyset:
  "fst ` set (tree_paths (Node None f (Some lnode) (Some rnode))) =
     fst ` set (tree_paths rnode) \<union> fst ` set (tree_paths lnode)"
  by (simp add: image_Un image_image case_prod_unfold)

lemma tree_paths_inner_mem:
  "(s, p) \<in> set (tree_paths (Node None f (Some lnode) (Some rnode))) \<longleftrightarrow>
     (\<exists>q. p = CHR ''0'' # q \<and> (s, q) \<in> set (tree_paths rnode)) \<or>
     (\<exists>q. p = CHR ''1'' # q \<and> (s, q) \<in> set (tree_paths lnode))"
proof -
  have "(s, p) \<in> (\<lambda>(s, p). (s, b # p)) ` A \<longleftrightarrow> (\<exists>q. p = b # q \<and> (s, q) \<in> A)"
    for b :: char and A :: "(symbol \<times> string) set"
    by force
  then show ?thesis
    by (simp only: tree_paths_inner set_append set_map Un_iff)
qed

lemma decode_walk_to_leaf:
  assumes "(if b = CHR ''1'' then left t else right t) = Some (Node (Some ch) f None None)"
    and "ch \<noteq> []"
  shows "decode_walk tree (Some t) (b # rest) acc = decode_walk tree (Some tree) rest (acc @ [ch])"
  using assms by (simp add: Let_def)

lemma decode_walk_to_inner:
  assumes "(if b = CHR ''1'' then left t else right t) = Some c" and "char c = None"
  shows "decode_walk tree (Some t) (b # rest) acc = decode_walk tree (Some c) rest acc"
  using assms by (simp add: Let_def)


text \<open>Walking the path of a symbol from an inner node emits the symbol and returns to the root.\<close>

lemma decode_walk_child:
  assumes "well_formed c"
    and "(if b = CHR ''1'' then left t else right t) = Some c"
    and "(s, q) \<in> set (tree_paths c)"
    and "\<forall>s \<in> fst ` set (tree_paths c). s \<noteq> []"
    and "char c = None \<Longrightarrow>
           decode_walk tree (Some c) (q @ rest) acc = decode_walk tree (Some tree) rest (acc @ [s])"
  shows "decode_walk tree (Some t) (b # q @ rest) acc =
         decode_walk tree (Some tree) rest (acc @ [s])"
  using assms(1)
proof (cases rule: well_formed_cases)
  case (leaf ch f)
  with assms(3) have sq: "s = ch" "q = []"
    by simp_all
  have "ch \<noteq> []"
    using assms(4) leaf by simp
  with assms(2) leaf have "decode_walk tree (Some t) (b # rest) acc =
      decode_walk tree (Some tree) rest (acc @ [ch])"
    by (intro decode_walk_to_leaf) simp_all
  with sq show ?thesis by simp
next
  case (inner f lnode rnode)
  then have n: "char c = None" by simp
  with assms(2) have "decode_walk tree (Some t) (b # q @ rest) acc =
      decode_walk tree (Some c) (q @ rest) acc"
    by (rule decode_walk_to_inner)
  with assms(5) [OF n] show ?thesis by simp
qed

lemma decode_walk_path:
  assumes "well_formed t" and "char t = None" and "(s, p) \<in> set (tree_paths t)"
    and "\<forall>s \<in> fst ` set (tree_paths t). s \<noteq> []"
  shows "decode_walk tree (Some t) (p @ rest) acc = decode_walk tree (Some tree) rest (acc @ [s])"
  using assms
proof (induction t arbitrary: p rule: well_formed_induct)
  case (leaf ch f)
  then show ?case by simp
next
  case (inner f lnode rnode)
  let ?t = "Node None f (Some lnode) (Some rnode)"
  have ner: "\<forall>s \<in> fst ` set (tree_paths rnode). s \<noteq> []"
    and nel: "\<forall>s \<in> fst ` set (tree_paths lnode). s \<noteq> []"
    using inner.prems(3) by (simp_all only: tree_paths_inner_keyset) blast+
  from inner.prems(2) consider
    (r) q where "p = CHR ''0'' # q" and "(s, q) \<in> set (tree_paths rnode)"
    | (l) q where "p = CHR ''1'' # q" and "(s, q) \<in> set (tree_paths lnode)"
    by (simp only: tree_paths_inner_mem) blast
  then show ?case
  proof cases
    case r
    have "decode_walk tree (Some ?t) (CHR ''0'' # q @ rest) acc =
          decode_walk tree (Some tree) rest (acc @ [s])"
    proof (rule decode_walk_child [OF inner.hyps(2) _ r(2) ner])
      show "(if CHR ''0'' = CHR ''1'' then left ?t else right ?t) = Some rnode"
        by simp
      assume "char rnode = None"
      then show "decode_walk tree (Some rnode) (q @ rest) acc =
                 decode_walk tree (Some tree) rest (acc @ [s])"
        using r(2) ner by (rule inner.IH(2))
    qed
    then show ?thesis
      using r(1) by simp
  next
    case l
    have "decode_walk tree (Some ?t) (CHR ''1'' # q @ rest) acc =
          decode_walk tree (Some tree) rest (acc @ [s])"
    proof (rule decode_walk_child [OF inner.hyps(1) _ l(2) nel])
      show "(if CHR ''1'' = CHR ''1'' then left ?t else right ?t) = Some lnode"
        by simp
      assume "char lnode = None"
      then show "decode_walk tree (Some lnode) (q @ rest) acc =
                 decode_walk tree (Some tree) rest (acc @ [s])"
        using l(2) nel by (rule inner.IH(1))
    qed
    then show ?thesis
      using l(1) by simp
  qed
qed


lemma decode_walk_encoded:
  assumes "well_formed tree" and "char tree = None"
    and "\<forall>s \<in> fst ` set (tree_paths tree). s \<noteq> []"
    and "covered seq (tree_paths tree)"
  shows "decode_walk tree (Some tree) (concat (map (code_of (tree_paths tree)) seq) @ rest) acc =
         decode_walk tree (Some tree) rest (acc @ seq)"
  using assms(4)
proof (induction seq arbitrary: acc)
  case Nil
  show ?case by simp
next
  case (Cons s seq)
  from Cons.prems obtain p where p: "map_of (tree_paths tree) s = Some p"
    by (auto simp: covered_def)
  then have sp: "(s, p) \<in> set (tree_paths tree)"
    by (rule map_of_SomeD)
  have c: "code_of (tree_paths tree) s = p"
    using p by (simp add: code_of_def)
  have cov: "covered seq (tree_paths tree)"
    using Cons.prems by (simp add: covered_def)
  have "decode_walk tree (Some tree) (p @ (concat (map (code_of (tree_paths tree)) seq) @ rest)) acc =
        decode_walk tree (Some tree) (concat (map (code_of (tree_paths tree)) seq) @ rest) (acc @ [s])"
    using assms(1,2) sp assms(3) by (rule decode_walk_path)
  also have "\<dots> = decode_walk tree (Some tree) rest ((acc @ [s]) @ seq)"
    using cov by (rule Cons.IH)
  finally show ?case
    by (simp add: c)
qed

text \<open>
  The codec \<open>build_huffman_codes\<close> returns for a counter of at least two distinct symbols:
  the root is an inner node, the codec lists the symbols of the tree with their paths, and
  it is a prefix-free, injective codec with non-empty code words for the symbols of the
  counter.
\<close>

lemma huffman_codec:
  assumes "distinct (map fst counter)" and "1 < length counter"
    and "build_huffman_codes chars counter = Inr (codes, encoded, tree)"
  shows "well_formed tree" and "char tree = None" and "codes = tree_paths tree"
    and "is_codec codes" and "set (map fst codes) = set (map fst counter)"
proof -
  have "counter \<noteq> []"
    using assms(2) by auto
  then obtain tree' where
    t: "huffman_merge (map (\<lambda>(ch, fr). Node (Some ch) fr None None) counter) = [tree']"
    and wf: "well_formed tree'"
    and ms: "mset (map fst (tree_paths tree')) = mset (map fst counter)"
    and inner: "char tree' = None"
    using huffman_tree [of counter] assms(2) by metis
  have eq: "codes = generate_codes tree' [] []" "tree = tree'"
    using assms(3) by (auto simp: build_huffman_codes_unfold [OF t] split: sum.splits)
  show wft: "well_formed tree"
    using wf eq by simp
  show int: "char tree = None"
    using inner eq by simp
  have d: "distinct (map fst (tree_paths tree))"
    using ms assms(1) eq mset_eq_imp_distinct_iff by blast
  have ne: "[] \<notin> set (map snd (tree_paths tree))"
    using wft int by (rule tree_paths_inner_nonempty)
  have "generate_codes tree [] [] =
        [] @ map (\<lambda>(s, p). (s, if [] @ p = [] then ''0'' else [] @ p)) (tree_paths tree)"
    using wft d by (rule generate_codes_paths) simp
  also have "\<dots> = tree_paths tree"
  proof -
    have "(\<lambda>(s, p). (s, if [] @ p = [] then ''0'' else [] @ p)) x = x"
      if "x \<in> set (tree_paths tree)" for x :: "symbol \<times> string"
    proof -
      have "snd x \<noteq> []"
        using ne that by force
      then show ?thesis
        by (cases x) simp
    qed
    then have "map (\<lambda>(s, p). (s, if [] @ p = [] then ''0'' else [] @ p)) (tree_paths tree) =
        tree_paths tree"
      by (rule map_idI)
    then show ?thesis
      by simp
  qed
  finally show c: "codes = tree_paths tree"
    using eq by simp
  have pf: "distinct (map snd (tree_paths tree)) \<and>
      (\<forall>c \<in> set (map snd (tree_paths tree)). \<forall>d \<in> set (map snd (tree_paths tree)).
         prefix c d \<longrightarrow> c = d)"
    using wft by (rule tree_paths_prefix_free)
  then have "prefix_free (tree_paths tree)"
    unfolding prefix_free_def strict_prefix_def by blast
  moreover have "nonempty_codes (tree_paths tree)"
    unfolding nonempty_codes_def using ne by blast
  ultimately show "is_codec codes"
    using d pf c by (simp add: is_codec_def)
  show "set (map fst codes) = set (map fst counter)"
    using ms c eq mset_eq_setD by blast
qed

text \<open>
  C9. For the tree and the codec that \<open>build_huffman_codes\<close> returns for a counter of at
  least two distinct, non-empty symbols, and the code words of any sequence of symbols of
  the codec joined: walking the tree (\<open>decode_text\<close>) returns the sequence, and so does the
  decoding with the inverted table, whose result \<open>decode\<close> returns joined to a string.
\<close>

theorem decode_text_agrees_with_decode:
  assumes "distinct (map fst counter)" and "1 < length counter"
    and "\<forall>s \<in> set (map fst counter). s \<noteq> []"
    and "build_huffman_codes chars counter = Inr (codes, encoded, tree)"
    and "covered seq codes"
    and "bits = concat (map (code_of codes) seq)"
  shows "decode_text bits tree = Inr seq \<and> decode_symbols bits codes = seq \<and>
         decode bits codes = concat seq"
proof -
  note h = huffman_codec [OF assms(1,2,4)]
  have ne: "\<forall>s \<in> fst ` set (tree_paths tree). s \<noteq> []"
    using assms(3) h(3,5) by simp
  have cov: "covered seq (tree_paths tree)"
    using assms(5) h(3) by simp
  have "decode_walk tree (Some tree) (concat (map (code_of (tree_paths tree)) seq) @ []) [] =
        decode_walk tree (Some tree) [] ([] @ seq)"
    using h(1,2) ne cov by (rule decode_walk_encoded)
  then have walk: "decode_text bits tree = Inr seq"
    using assms(6) h(3) by (simp add: decode_text_def)
  have "decode_loop (reversed_codec codes) (concat (map (code_of codes) seq) @ []) ([], []) =
        (seq, [])"
    using h(4) assms(5) by (rule decode_loop_encoded_tail) simp
  then have "decode_symbols bits codes = seq"
    using assms(6) by (simp add: decode_symbols_def)
  with walk show ?thesis
    by (simp add: decode_def)
qed


theorem decode_text_agrees_with_decode_witness:
  "build_huffman_codes [''a'', ''b'', ''c'', ''a''] [(''a'', 5), (''b'', 2), (''c'', 1), (''d'', 1)] =
     Inr ([(''a'', ''0''), (''d'', ''100''), (''c'', ''101''), (''b'', ''11'')], ''0111010'',
          Node None 9
            (Some (Node None 4 (Some (Node (Some ''b'') 2 None None))
               (Some (Node None 2 (Some (Node (Some ''c'') 1 None None))
                  (Some (Node (Some ''d'') 1 None None))))))
            (Some (Node (Some ''a'') 5 None None))) \<and>
   decode_text ''100011''
     (Node None 9
        (Some (Node None 4 (Some (Node (Some ''b'') 2 None None))
           (Some (Node None 2 (Some (Node (Some ''c'') 1 None None))
              (Some (Node (Some ''d'') 1 None None))))))
        (Some (Node (Some ''a'') 5 None None))) = Inr [''d'', ''a'', ''b''] \<and>
   decode_symbols ''100011'' [(''a'', ''0''), (''d'', ''100''), (''c'', ''101''), (''b'', ''11'')] =
     [''d'', ''a'', ''b''] \<and>
   decode ''100011'' [(''a'', ''0''), (''d'', ''100''), (''c'', ''101''), (''b'', ''11'')] = ''dab''"
proof -
  let ?counter = "[(''a'', 5), (''b'', 2), (''c'', 1), (''d'', 1 :: int)]"
  let ?codes = "[(''a'', ''0''), (''d'', ''100''), (''c'', ''101''), (''b'', ''11'')]"
  let ?tree = "Node None 9
        (Some (Node None 4 (Some (Node (Some ''b'') 2 None None))
           (Some (Node None 2 (Some (Node (Some ''c'') 1 None None))
              (Some (Node (Some ''d'') 1 None None))))))
        (Some (Node (Some ''a'') 5 None None))"
  have h1: "distinct (map fst ?counter)"
    by simp
  have h2: "1 < length ?counter"
    by simp
  have h3: "\<forall>s \<in> set (map fst ?counter). s \<noteq> []"
    by simp
  have h4: "build_huffman_codes [''a'', ''b'', ''c'', ''a''] ?counter = Inr (?codes, ''0111010'', ?tree)"
    by (simp add: build_huffman_codes_def huffman_merge.simps)
  have h5: "covered [''d'', ''a'', ''b''] ?codes"
    by (simp add: covered_def)
  have h6: "''100011'' = concat (map (code_of ?codes) [''d'', ''a'', ''b''])"
    by (simp add: code_of_def)
  show ?thesis
    using h4 decode_text_agrees_with_decode [OF h1 h2 h3 h4 h5 h6] by simp
qed


section \<open>Properties of Shannon-Fano coding\<close>

text \<open>
  When the items before the last already reach half of the total, the cut falls strictly
  inside the group.
\<close>

lemma find_cut_bounds:
  "2 \<le> length xs \<Longrightarrow>
   real_of_int total_freq \<le> 2 * real_of_int (acc + sum_list (map snd (butlast xs))) \<Longrightarrow>
   i < find_cut xs total_freq acc i \<and> find_cut xs total_freq acc i < i + length xs"
proof (induction xs arbitrary: acc i)
  case Nil
  then show ?case by simp
next
  case (Cons x xs)
  obtain ch fr where x: "x = (ch, fr)"
    by (cases x)
  show ?case
  proof (cases "real_of_int (acc + fr) \<ge> real_of_int total_freq / 2")
    case True
    then show ?thesis
      using Cons.prems(1) x by (cases xs) simp_all
  next
    case False
    have xs: "xs \<noteq> []"
      using Cons.prems(1) by auto
    have "2 \<le> length xs"
    proof (rule ccontr)
      assume "\<not> 2 \<le> length xs"
      moreover have "length xs \<noteq> 0"
        using xs by simp
      ultimately have "length xs = 1"
        by linarith
      then have "butlast (x # xs) = [x]"
        by (cases xs) auto
      then have "real_of_int total_freq \<le> 2 * real_of_int (acc + fr)"
        using Cons.prems(2) x by simp
      with False show False
        by simp
    qed
    moreover have "real_of_int total_freq \<le> 2 * real_of_int ((acc + fr) + sum_list (map snd (butlast xs)))"
      using Cons.prems(2) xs x by (simp add: add.assoc)
    ultimately have "i + 1 < find_cut xs total_freq (acc + fr) (i + 1) \<and>
        find_cut xs total_freq (acc + fr) (i + 1) < (i + 1) + length xs"
      by (rule Cons.IH)
    then show ?thesis
      using False x by (simp add: Let_def)
  qed
qed

text \<open>In a descending list of positive frequencies the last is at most the sum of the others.\<close>

lemma descending_half:
  fixes fs :: "int list"
  assumes "2 \<le> length fs" and "sorted (map uminus fs)" and "\<forall>f \<in> set fs. 0 < f"
  shows "sum_list fs \<le> 2 * sum_list (butlast fs)"
proof -
  obtain a ys where fs: "fs = a # ys"
    using assms(1) by (cases fs) auto
  have ys: "ys \<noteq> []"
    using assms(1) fs by auto
  have "last ys \<in> set ys"
    using ys by simp
  then have "- a \<le> - last ys"
    using assms(2) fs by auto
  then have la: "last fs \<le> a"
    using fs ys by simp
  have "\<forall>f \<in> set (butlast ys). 0 < f"
    using assms(3) fs by (auto dest: in_set_butlastD)
  then have "0 \<le> sum_list (butlast ys)"
    by (rule sum_list_pos_int(1))
  then have "a \<le> sum_list (butlast fs)"
    using fs ys by simp
  moreover have "sum_list fs = sum_list (butlast fs) + last fs"
  proof -
    have "fs = butlast fs @ [last fs]"
      using fs by simp
    then have "sum_list fs = sum_list (butlast fs @ [last fs])"
      by simp
    then show ?thesis
      by simp
  qed
  ultimately show ?thesis
    using la by simp
qed

lemma find_cut_inside:
  assumes "2 \<le> length grp" and "sorted (map (\<lambda>x. - snd x) grp)" and "\<forall>x \<in> set grp. 0 < snd x"
  shows "0 < find_cut grp (sum_list (map snd grp)) 0 0"
    and "find_cut grp (sum_list (map snd grp)) 0 0 < length grp"
proof -
  have "sorted (map uminus (map snd grp))"
    using assms(2) by (simp add: comp_def)
  moreover have "2 \<le> length (map snd grp)" and "\<forall>f \<in> set (map snd grp). 0 < f"
    using assms(1,3) by simp_all
  ultimately have "sum_list (map snd grp) \<le> 2 * sum_list (butlast (map snd grp))"
    by (intro descending_half)
  then have "sum_list (map snd grp) \<le> 2 * (0 + sum_list (map snd (butlast grp)))"
    by (simp add: map_butlast)
  then have "real_of_int (sum_list (map snd grp)) \<le>
      2 * real_of_int (0 + sum_list (map snd (butlast grp)))"
    by (metis of_int_le_iff of_int_mult of_int_numeral)
  with assms(1) have "0 < find_cut grp (sum_list (map snd grp)) 0 0 \<and>
      find_cut grp (sum_list (map snd grp)) 0 0 < 0 + length grp"
    by (rule find_cut_bounds)
  then show "0 < find_cut grp (sum_list (map snd grp)) 0 0"
    and "find_cut grp (sum_list (map snd grp)) 0 0 < length grp"
    by simp_all
qed

text \<open>
  The dict \<open>codes\<close>, over a fixed list of distinct keys, as a function from keys to codes:
  appending a bit to the codes of some items changes the function at their keys.
\<close>

lemma update_keyed:
  "distinct ks \<Longrightarrow> AList.update ch v (map (\<lambda>k. (k, e k)) ks) = map (\<lambda>k. (k, (e(ch := v)) k)) ks"
  if "ch \<in> set ks"
  using that by (induction ks) auto

lemma map_of_keyed: "ch \<in> set ks \<Longrightarrow> map_of (map (\<lambda>k. (k, e k)) ks) ch = Some (e ch)"
  by (induction ks) auto

lemma append_bits_keyed:
  "distinct ks \<Longrightarrow> distinct (map fst items) \<Longrightarrow> fst ` set items \<subseteq> set ks \<Longrightarrow>
   append_bits items b (map (\<lambda>k. (k, e k)) ks) =
     Inr (map (\<lambda>k. (k, if k \<in> fst ` set items then e k @ b else e k)) ks)"
proof (induction items arbitrary: e)
  case Nil
  show ?case by simp
next
  case (Cons it items)
  obtain ch fr where it: "it = (ch, fr)"
    by (cases it)
  have ch: "ch \<in> set ks" and nin: "ch \<notin> fst ` set items"
    using Cons.prems(2,3) it by auto
  have "append_bits (it # items) b (map (\<lambda>k. (k, e k)) ks) =
        append_bits items b (map (\<lambda>k. (k, (e(ch := e ch @ b)) k)) ks)"
    using ch Cons.prems(1) by (simp add: it map_of_keyed update_keyed)
  also have "\<dots> = Inr (map (\<lambda>k. (k, if k \<in> fst ` set items then (e(ch := e ch @ b)) k @ b
                                      else (e(ch := e ch @ b)) k)) ks)"
    using Cons.prems by (intro Cons.IH) simp_all
  also have "\<dots> = Inr (map (\<lambda>k. (k, if k \<in> fst ` set (it # items) then e k @ b else e k)) ks)"
    using nin it by auto
  finally show ?case .
qed


text \<open>
  The effect of \<open>split\<close> on a group that is sorted by descending frequency, with positive
  frequencies: it succeeds and appends to the code of every key an extension. The
  extension is empty outside the group, non-empty inside a group of at least two items,
  and of two different keys of the group neither extension is a prefix of the other.
\<close>

lemma split_extends:
  assumes "distinct ks"
  shows "distinct (map fst grp) \<Longrightarrow> fst ` set grp \<subseteq> set ks \<Longrightarrow>
    sorted (map (\<lambda>x. - snd x) grp) \<Longrightarrow> \<forall>x \<in> set grp. 0 < snd x \<Longrightarrow>
    \<exists>x. split grp (map (\<lambda>k. (k, e k)) ks) = Inr (map (\<lambda>k. (k, e k @ x k)) ks) \<and>
        (\<forall>k. k \<notin> fst ` set grp \<longrightarrow> x k = []) \<and>
        (2 \<le> length grp \<longrightarrow> (\<forall>k \<in> fst ` set grp. x k \<noteq> [])) \<and>
        (\<forall>k \<in> fst ` set grp. \<forall>k' \<in> fst ` set grp. k \<noteq> k' \<longrightarrow> \<not> prefix (x k) (x k'))"
proof (induction "length grp" arbitrary: grp e rule: less_induct)
  case less
  show ?case
  proof (cases "length grp \<le> 1")
    case True
    have one: "k = k'" if "k \<in> fst ` set grp" and "k' \<in> fst ` set grp" for k k'
    proof (cases grp)
      case Nil
      with that show ?thesis by simp
    next
      case (Cons a as)
      with True have "as = []" by simp
      with Cons that show ?thesis by simp
    qed
    have "split grp (map (\<lambda>k. (k, e k)) ks) = Inr (map (\<lambda>k. (k, e k @ [])) ks)"
      using True by (subst split.simps) simp
    moreover have "\<forall>k. k \<notin> fst ` set grp \<longrightarrow> (\<lambda>k. []) k = ([] :: string)"
      by simp
    moreover have "2 \<le> length grp \<longrightarrow> (\<forall>k \<in> fst ` set grp. (\<lambda>k. []) k \<noteq> ([] :: string))"
      using True by simp
    moreover have "\<forall>k \<in> fst ` set grp. \<forall>k' \<in> fst ` set grp. k \<noteq> k' \<longrightarrow>
        \<not> prefix ((\<lambda>k. []) k) ((\<lambda>k. ([] :: string)) k')"
      using one by blast
    ultimately show ?thesis
      by (intro exI [of _ "\<lambda>k. []"] conjI)
  next
    case False
    then have len: "2 \<le> length grp"
      by simp
    let ?cut = "find_cut grp (sum_list (map snd grp)) 0 0"
    let ?L = "take ?cut grp" and ?R = "drop ?cut grp"
    have cut0: "0 < ?cut" and cutn: "?cut < length grp"
      using len less.prems(3,4) by (rule find_cut_inside)+
    have grp: "grp = ?L @ ?R"
      by simp
    have lenL: "length ?L < length grp" and lenR: "length ?R < length grp"
      using cut0 cutn by simp_all
    have neL: "?L \<noteq> []" and neR: "?R \<noteq> []"
      using cut0 cutn by auto
    have "distinct (map fst ?L @ map fst ?R)"
      using less.prems(1) by (simp only: map_append [symmetric] append_take_drop_id)
    then have dL: "distinct (map fst ?L)" and dR: "distinct (map fst ?R)"
      and dis: "fst ` set ?L \<inter> fst ` set ?R = {}"
      by (simp_all only: distinct_append set_map)
    have keys: "fst ` set grp = fst ` set ?L \<union> fst ` set ?R"
      by (metis grp image_Un set_append)
    have subL: "fst ` set ?L \<subseteq> set ks" and subR: "fst ` set ?R \<subseteq> set ks"
      using less.prems(2) keys by blast+
    have "sorted (map (\<lambda>x. - snd x) ?L @ map (\<lambda>x. - snd x) ?R)"
      using less.prems(3) by (simp only: map_append [symmetric] append_take_drop_id)
    then have sL: "sorted (map (\<lambda>x. - snd x) ?L)" and sR: "sorted (map (\<lambda>x. - snd x) ?R)"
      by (simp_all only: sorted_append)
    have pL: "\<forall>x \<in> set ?L. 0 < snd x" and pR: "\<forall>x \<in> set ?R. 0 < snd x"
      using less.prems(4) by (auto dest: in_set_takeD in_set_dropD)
    let ?e1 = "\<lambda>k. if k \<in> fst ` set ?L then e k @ ''0'' else e k"
    let ?e2 = "\<lambda>k. if k \<in> fst ` set ?R then ?e1 k @ ''1'' else ?e1 k"
    have a1: "append_bits ?L ''0'' (map (\<lambda>k. (k, e k)) ks) = Inr (map (\<lambda>k. (k, ?e1 k)) ks)"
      using assms dL subL by (rule append_bits_keyed)
    have a2: "append_bits ?R ''1'' (map (\<lambda>k. (k, ?e1 k)) ks) = Inr (map (\<lambda>k. (k, ?e2 k)) ks)"
      using assms dR subR by (rule append_bits_keyed)
    obtain xr where
      r1: "split ?R (map (\<lambda>k. (k, ?e2 k)) ks) = Inr (map (\<lambda>k. (k, ?e2 k @ xr k)) ks)"
      and r2: "\<forall>k. k \<notin> fst ` set ?R \<longrightarrow> xr k = []"
      and r3: "2 \<le> length ?R \<longrightarrow> (\<forall>k \<in> fst ` set ?R. xr k \<noteq> [])"
      and r4: "\<forall>k \<in> fst ` set ?R. \<forall>k' \<in> fst ` set ?R. k \<noteq> k' \<longrightarrow> \<not> prefix (xr k) (xr k')"
      using less.hyps [OF lenR dR subR sR pR, of ?e2] by blast
    obtain xl where
      l1: "split ?L (map (\<lambda>k. (k, ?e2 k @ xr k)) ks) = Inr (map (\<lambda>k. (k, (?e2 k @ xr k) @ xl k)) ks)"
      and l2: "\<forall>k. k \<notin> fst ` set ?L \<longrightarrow> xl k = []"
      and l3: "2 \<le> length ?L \<longrightarrow> (\<forall>k \<in> fst ` set ?L. xl k \<noteq> [])"
      and l4: "\<forall>k \<in> fst ` set ?L. \<forall>k' \<in> fst ` set ?L. k \<noteq> k' \<longrightarrow> \<not> prefix (xl k) (xl k')"
      using less.hyps [OF lenL dL subL sL pL, of "\<lambda>k. ?e2 k @ xr k"] by blast
    let ?x = "\<lambda>k. if k \<in> fst ` set ?L then CHR ''0'' # xl k
                  else if k \<in> fst ` set ?R then CHR ''1'' # xr k else []"
    have ext: "(?e2 k @ xr k) @ xl k = e k @ ?x k" for k
      using dis r2 l2 by auto
    have run: "split grp (map (\<lambda>k. (k, e k)) ks) = Inr (map (\<lambda>k. (k, e k @ ?x k)) ks)"
    proof -
      have "split grp (map (\<lambda>k. (k, e k)) ks) = split ?L (map (\<lambda>k. (k, ?e2 k @ xr k)) ks)"
        using False cut0 cutn by (subst split.simps) (simp add: Let_def a1 a2 r1)
      also have "\<dots> = Inr (map (\<lambda>k. (k, (?e2 k @ xr k) @ xl k)) ks)"
        by (rule l1)
      finally show ?thesis
        by (simp only: ext)
    qed
    have out: "\<forall>k. k \<notin> fst ` set grp \<longrightarrow> ?x k = []"
      using keys by auto
    have inn: "2 \<le> length grp \<longrightarrow> (\<forall>k \<in> fst ` set grp. ?x k \<noteq> [])"
      using keys by auto
    have pf: "\<forall>k \<in> fst ` set grp. \<forall>k' \<in> fst ` set grp. k \<noteq> k' \<longrightarrow> \<not> prefix (?x k) (?x k')"
    proof (intro ballI impI)
      fix k k' assume k: "k \<in> fst ` set grp" and k': "k' \<in> fst ` set grp" and ne: "k \<noteq> k'"
      show "\<not> prefix (?x k) (?x k')"
      proof (cases "k \<in> fst ` set ?L")
        case kL: True
        show ?thesis
        proof (cases "k' \<in> fst ` set ?L")
          case True
          with kL ne l4 have "\<not> prefix (xl k) (xl k')" by blast
          with kL True show ?thesis by simp
        next
          case False
          with k' keys have "k' \<in> fst ` set ?R" by blast
          with kL False show ?thesis by simp
        qed
      next
        case kL: False
        with k keys have kR: "k \<in> fst ` set ?R" by blast
        show ?thesis
        proof (cases "k' \<in> fst ` set ?L")
          case True
          with kL kR show ?thesis by simp
        next
          case False
          with k' keys have k'R: "k' \<in> fst ` set ?R" by blast
          with kR ne r4 have "\<not> prefix (xr k) (xr k')" by blast
          with kL kR False k'R show ?thesis by simp
        qed
      qed
    qed
    show ?thesis
      using run out inn pf by (intro exI [of _ ?x] conjI)
  qed
qed

lemma shannon_fano_codec:
  assumes "distinct (map fst counter)" and "1 < length counter"
    and "\<forall>c \<in> set (map snd counter). 0 < c"
  shows "\<exists>sf. calculate_shannon_fano counter = Inr sf \<and> map fst sf = map fst counter \<and>
           is_codec sf"
proof -
  let ?ks = "map fst counter"
  let ?grp = "sort_key (\<lambda>x. - snd x) counter"
  have "mset (map fst ?grp) = mset ?ks"
    by simp
  then have d: "distinct (map fst ?grp)"
    using assms(1) mset_eq_imp_distinct_iff by blast
  have keys: "fst ` set ?grp = set ?ks"
    by simp
  have sub: "fst ` set ?grp \<subseteq> set ?ks"
    by simp
  have s: "sorted (map (\<lambda>x. - snd x) ?grp)"
    by (rule sorted_sort_key)
  have p: "\<forall>x \<in> set ?grp. 0 < snd x"
    using assms(3) by simp
  obtain x where
    run: "split ?grp (map (\<lambda>k. (k, (\<lambda>k. []) k)) ?ks) = Inr (map (\<lambda>k. (k, (\<lambda>k. []) k @ x k)) ?ks)"
    and ne: "2 \<le> length ?grp \<longrightarrow> (\<forall>k \<in> fst ` set ?grp. x k \<noteq> [])"
    and pf: "\<forall>k \<in> fst ` set ?grp. \<forall>k' \<in> fst ` set ?grp. k \<noteq> k' \<longrightarrow> \<not> prefix (x k) (x k')"
    using split_extends [OF assms(1) d sub s p, of "\<lambda>k. []"] by blast
  let ?sf = "map (\<lambda>k. (k, x k)) ?ks"
  have init: "map (\<lambda>(ch, _). (ch, [])) counter = map (\<lambda>k. (k, (\<lambda>k. []) k)) ?ks"
    by (simp add: case_prod_unfold comp_def)
  have val: "calculate_shannon_fano counter = Inr ?sf"
    by (simp only: calculate_shannon_fano_def init run append_Nil)
  have k: "map fst ?sf = ?ks"
    by (simp add: comp_def)
  have c: "map snd ?sf = map x ?ks"
    by (simp add: comp_def)
  have inj: "inj_on x (set ?ks)"
  proof (rule inj_onI)
    fix k k' assume "k \<in> set ?ks" and "k' \<in> set ?ks" and "x k = x k'"
    show "k = k'"
    proof (rule ccontr)
      assume "k \<noteq> k'"
      moreover have "k \<in> fst ` set ?grp" and "k' \<in> fst ` set ?grp"
        using \<open>k \<in> set ?ks\<close> \<open>k' \<in> set ?ks\<close> by (simp_all only: keys)
      ultimately have "\<not> prefix (x k) (x k')"
        using pf by blast
      then show False
        using \<open>x k = x k'\<close> by simp
    qed
  qed
  have dc: "distinct (map snd ?sf)"
    using assms(1) inj by (simp only: c distinct_map)
  have "2 \<le> length ?grp"
    using assms(2) by simp
  with ne have ne': "\<forall>k \<in> set ?ks. x k \<noteq> []"
    by (simp only: keys) blast
  have nec: "nonempty_codes ?sf"
    unfolding nonempty_codes_def c using ne' by auto
  have pfc: "prefix_free ?sf"
    unfolding prefix_free_def c
  proof (intro ballI notI)
    fix a b assume "a \<in> set (map x ?ks)" and "b \<in> set (map x ?ks)" and sp: "strict_prefix a b"
    then obtain k k' where kk: "k \<in> set ?ks" "k' \<in> set ?ks" "a = x k" "b = x k'"
      by auto
    with sp have "k \<noteq> k'"
      by auto
    moreover have "k \<in> fst ` set ?grp" and "k' \<in> fst ` set ?grp"
      using kk(1,2) by (simp_all only: keys)
    ultimately have "\<not> prefix (x k) (x k')"
      using pf by blast
    with kk have "\<not> prefix a b"
      by simp
    with sp show False
      by (simp add: strict_prefix_def)
  qed
  have "is_codec ?sf"
    unfolding is_codec_def using assms(1) dc nec pfc by (simp only: k)
  with val k show ?thesis
    by blast
qed


text \<open>
  C2. For a counter of at least two distinct symbols with positive counts, the codec of
  \<open>calculate_shannon_fano\<close> and the codec of \<open>build_huffman_codes\<close> (called with elements
  that are symbols of the counter) both exist, give every symbol of the counter a code
  word, and are codecs: the code words are non-empty, different symbols have different
  code words, and no code word is a proper prefix of another.
\<close>

theorem builders_give_prefix_free_codecs:
  assumes "distinct (map fst counter)" and "1 < length counter"
    and "\<forall>c \<in> set (map snd counter). 0 < c"
    and "set chars \<subseteq> fst ` set counter"
  shows "(\<exists>sf. calculate_shannon_fano counter = Inr sf \<and> map fst sf = map fst counter \<and>
            nonempty_codes sf \<and> prefix_free sf \<and> is_codec sf) \<and>
         (\<exists>codes encoded tree.
            build_huffman_codes chars counter = Inr (codes, encoded, tree) \<and>
            set (map fst codes) = set (map fst counter) \<and>
            nonempty_codes codes \<and> prefix_free codes \<and> is_codec codes)"
proof
  obtain sf where v: "calculate_shannon_fano counter = Inr sf"
    and k: "map fst sf = map fst counter" and c: "is_codec sf"
    using shannon_fano_codec [OF assms(1-3)] by blast
  from c have "nonempty_codes sf" and "prefix_free sf"
    by (simp_all add: is_codec_def)
  with v k c show "\<exists>sf. calculate_shannon_fano counter = Inr sf \<and> map fst sf = map fst counter \<and>
            nonempty_codes sf \<and> prefix_free sf \<and> is_codec sf"
    by blast
next
  have "counter \<noteq> []"
    using assms(2) by auto
  then obtain codes encoded tree where
    b: "build_huffman_codes chars counter = Inr (codes, encoded, tree)"
    using build_huffman_codes_succeeds [OF _ assms(4)] by blast
  have c: "is_codec codes" and k: "set (map fst codes) = set (map fst counter)"
    using huffman_codec [OF assms(1,2) b] by blast+
  from c have "nonempty_codes codes" and "prefix_free codes"
    by (simp_all add: is_codec_def)
  with b c k show "\<exists>codes encoded tree.
            build_huffman_codes chars counter = Inr (codes, encoded, tree) \<and>
            set (map fst codes) = set (map fst counter) \<and>
            nonempty_codes codes \<and> prefix_free codes \<and> is_codec codes"
    by blast
qed

theorem builders_give_prefix_free_codecs_witness:
  "calculate_shannon_fano [(''a'', 5), (''b'', 2), (''c'', 1), (''d'', 1)] =
     Inr [(''a'', ''0''), (''b'', ''10''), (''c'', ''110''), (''d'', ''111'')] \<and>
   is_codec [(''a'', ''0''), (''b'', ''10''), (''c'', ''110''), (''d'', ''111'')] \<and>
   (\<exists>codes encoded tree.
      build_huffman_codes [''a'', ''b'', ''c'', ''a''] [(''a'', 5), (''b'', 2), (''c'', 1), (''d'', 1)] =
        Inr (codes, encoded, tree) \<and>
      set (map fst codes) = set (map fst [(''a'', 5), (''b'', 2), (''c'', 1), (''d'', 1 :: int)]) \<and>
      nonempty_codes codes \<and> prefix_free codes \<and> is_codec codes)"
proof -
  let ?counter = "[(''a'', 5), (''b'', 2), (''c'', 1), (''d'', 1 :: int)]"
  have h1: "distinct (map fst ?counter)"
    by simp
  have h2: "1 < length ?counter"
    by simp
  have h3: "\<forall>c \<in> set (map snd ?counter). 0 < c"
    by simp
  have h4: "set [''a'', ''b'', ''c'', ''a''] \<subseteq> fst ` set ?counter"
    by simp
  have v: "calculate_shannon_fano ?counter =
      Inr [(''a'', ''0''), (''b'', ''10''), (''c'', ''110''), (''d'', ''111'')]"
    by code_simp
  note r = builders_give_prefix_free_codecs [OF h1 h2 h3 h4]
  from r obtain sf where "calculate_shannon_fano ?counter = Inr sf" and "is_codec sf"
    by blast
  with v have "is_codec [(''a'', ''0''), (''b'', ''10''), (''c'', ''110''), (''d'', ''111'')]"
    by simp
  with r v show ?thesis
    by blast
qed

end
